theory Spec2Isabelle
  imports Main "HOL-Library.Extended_Nat"
begin

section \<open>The graph container (\<open>BFS::Graph\<close> of \<open>bfs.h\<close>)\<close>

text \<open>
  The class holds an \<open>unordered_map<int, vector<int>>\<close> and the \<open>isDirected\<close> flag.
  The map is modelled as an association list whose order of keys is the order in which
  the map is enumerated; the standard leaves that order open, so every statement below
  is made for an arbitrary order of the keys. A map has each key once: \<open>wf_graph\<close>.
  Vertex ids are C++ \<open>int\<close>s on which no arithmetic is done; they are modelled as
  \<open>int\<close>. Distances are counted in \<open>int\<close> as well: \<open>distance + 1\<close> cannot leave
  the 32-bit range before the graph holds \<open>2^31\<close> vertices.
\<close>

record Graph =
  adjList :: "(int \<times> int list) list"
  isDirected :: bool

definition wf_graph :: "Graph \<Rightarrow> bool" where
  "wf_graph g = distinct (map fst (adjList g))"

text \<open>The constructor \<open>Graph(bool directed = false)\<close>.\<close>

definition new_Graph :: "bool \<Rightarrow> Graph" where
  "new_Graph directed = \<lparr>adjList = [], isDirected = directed\<rparr>"

text \<open>\<open>adjList[k].push_back(x)\<close>: \<open>operator[]\<close> creates the entry of an absent key.\<close>

fun push_back_at :: "int \<Rightarrow> int \<Rightarrow> (int \<times> int list) list \<Rightarrow> (int \<times> int list) list" where
  "push_back_at k x [] = [(k, [x])]"
| "push_back_at k x ((k', xs) # m) =
     (if k = k' then (k', xs @ [x]) # m else (k', xs) # push_back_at k x m)"

definition addEdge :: "Graph \<Rightarrow> int \<Rightarrow> int \<Rightarrow> Graph" where
  "addEdge g from to =
     (let m = push_back_at from to (adjList g)
      in if \<not> isDirected g then g\<lparr>adjList := push_back_at to from m\<rparr>
         else g\<lparr>adjList := m\<rparr>)"

definition addVertex :: "Graph \<Rightarrow> int \<Rightarrow> Graph" where
  "addVertex g vertex =
     (if map_of (adjList g) vertex = None then g\<lparr>adjList := adjList g @ [(vertex, [])]\<rparr>
      else g)"

definition getNeighbors :: "Graph \<Rightarrow> int \<Rightarrow> int list" where
  "getNeighbors g vertex = (case map_of (adjList g) vertex of Some ns \<Rightarrow> ns | None \<Rightarrow> [])"

definition getAllVertices :: "Graph \<Rightarrow> int list" where
  "getAllVertices g = map fst (adjList g)"

definition hasVertex :: "Graph \<Rightarrow> int \<Rightarrow> bool" where
  "hasVertex g vertex = (map_of (adjList g) vertex \<noteq> None)"

definition getVertexCount :: "Graph \<Rightarrow> nat" where
  "getVertexCount g = length (adjList g)"

section \<open>\<open>traverse\<close>\<close>

text \<open>The inner \<open>for\<close> loop over the neighbours of the dequeued vertex.\<close>

fun visit_neighbors :: "int list \<Rightarrow> int set \<Rightarrow> int list \<Rightarrow> int set \<times> int list" where
  "visit_neighbors [] visited queue = (visited, queue)"
| "visit_neighbors (neighbor # ns) visited queue =
     (if neighbor \<notin> visited
      then visit_neighbors ns (insert neighbor visited) (queue @ [neighbor])
      else visit_neighbors ns visited queue)"

text \<open>Every value stored in some adjacency sequence: the vertices a search can discover.\<close>

definition targets :: "Graph \<Rightarrow> int set" where
  "targets g = (\<Union>ns \<in> set (map snd (adjList g)). set ns)"

lemma finite_targets: "finite (targets g)"
  by (simp add: targets_def)

lemma getNeighbors_targets: "set (getNeighbors g v) \<subseteq> targets g"
proof
  fix x assume "x \<in> set (getNeighbors g v)"
  then obtain ns where "map_of (adjList g) v = Some ns" "x \<in> set ns"
    by (cases "map_of (adjList g) v") (auto simp: getNeighbors_def)
  then have "(v, ns) \<in> set (adjList g)" by (simp add: map_of_SomeD)
  with \<open>x \<in> set ns\<close> show "x \<in> targets g"
    by (force simp: targets_def)
qed

lemma visit_neighbors_measure:
  "visit_neighbors ns visited queue = (visited', queue') \<Longrightarrow> finite A \<Longrightarrow> set ns \<subseteq> A \<Longrightarrow>
   2 * card (A - visited') + length queue' \<le> 2 * card (A - visited) + length queue"
proof (induction ns arbitrary: visited queue)
  case Nil
  then show ?case by simp
next
  case (Cons n ns)
  show ?case
  proof (cases "n \<in> visited")
    case True
    with Cons show ?thesis by simp
  next
    case False
    with Cons.prems have n: "n \<in> A - visited" by simp
    have sub: "A - insert n visited = (A - visited) - {n}" by auto
    from n Cons.prems(2) have pos: "card (A - visited) > 0"
      by (metis card_gt_0_iff empty_iff finite_Diff)
    have "card (A - insert n visited) = card (A - visited) - 1"
      using n by (simp add: sub)
    moreover have "2 * card (A - visited') + length queue'
        \<le> 2 * card (A - insert n visited) + length (queue @ [n])"
      using Cons.IH[of "insert n visited" "queue @ [n]"] Cons.prems False by simp
    ultimately show ?thesis using pos by simp
  qed
qed

function traverse_loop :: "Graph \<Rightarrow> int list \<Rightarrow> int set \<Rightarrow> int list \<Rightarrow> int list" where
  "traverse_loop g [] visited result = result"
| "traverse_loop g (current # queue) visited result =
     (case visit_neighbors (getNeighbors g current) visited queue of
        (visited', queue') \<Rightarrow> traverse_loop g queue' visited' (result @ [current]))"
  by pat_completeness auto
termination
  apply (relation "measure (\<lambda>(g, queue, visited, result).
                   2 * card (targets g - visited) + length queue)")
   apply simp
  apply (simp del: visit_neighbors.simps)
  apply (metis visit_neighbors_measure finite_targets getNeighbors_targets
      less_Suc_eq_le add_Suc_right)
  done

definition traverse :: "Graph \<Rightarrow> int \<Rightarrow> int list" where
  "traverse g start =
     (if \<not> hasVertex g start then []
      else traverse_loop g [start] {start} [])"

section \<open>\<open>shortestPath\<close>\<close>

text \<open>
  \<open>parent\<close> is an \<open>unordered_map<int, int>\<close>. It is read with \<open>operator[]\<close>, which
  gives the value-initialised \<open>0\<close> for an absent key.
\<close>

definition parent_at :: "(int \<rightharpoonup> int) \<Rightarrow> int \<Rightarrow> int" where
  "parent_at parent node = (case parent node of Some p \<Rightarrow> p | None \<Rightarrow> 0)"

fun visit_neighbors_parent ::
  "int \<Rightarrow> int list \<Rightarrow> int set \<Rightarrow> (int \<rightharpoonup> int) \<Rightarrow> int list
   \<Rightarrow> int set \<times> (int \<rightharpoonup> int) \<times> int list" where
  "visit_neighbors_parent current [] visited parent queue = (visited, parent, queue)"
| "visit_neighbors_parent current (neighbor # ns) visited parent queue =
     (if neighbor \<notin> visited
      then visit_neighbors_parent current ns (insert neighbor visited)
             (parent(neighbor \<mapsto> current)) (queue @ [neighbor])
      else visit_neighbors_parent current ns visited parent queue)"

text \<open>
  The walk \<open>while (node != -1)\<close> along the parent links. Nothing in the loop itself bounds
  it, so it is a partial function: \<open>None\<close> stands for a walk that never ends.
\<close>

partial_function (option) reconstruct_path ::
  "(int \<rightharpoonup> int) \<Rightarrow> int \<Rightarrow> int list \<Rightarrow> int list option" where
  "reconstruct_path parent node path =
     (if node \<noteq> - 1 then reconstruct_path parent (parent_at parent node) (path @ [node])
      else Some path)"

lemma visit_neighbors_parent_proj:
  "visit_neighbors_parent current ns visited parent queue = (visited', parent', queue') \<Longrightarrow>
   visit_neighbors ns visited queue = (visited', queue')"
  by (induction ns arbitrary: visited parent queue) (auto split: if_splits)

function shortestPath_loop ::
  "Graph \<Rightarrow> int \<Rightarrow> int list \<Rightarrow> int set \<Rightarrow> (int \<rightharpoonup> int) \<Rightarrow> int list option" where
  "shortestPath_loop g target [] visited parent = Some []"
| "shortestPath_loop g target (current # queue) visited parent =
     (if current = target then map_option rev (reconstruct_path parent target [])
      else (case visit_neighbors_parent current (getNeighbors g current) visited parent queue of
              (visited', parent', queue') \<Rightarrow> shortestPath_loop g target queue' visited' parent'))"
  by pat_completeness auto
termination
  apply (relation "measure (\<lambda>(g, target, queue, visited, parent).
                   2 * card (targets g - visited) + length queue)")
   apply simp
  apply (simp del: visit_neighbors.simps visit_neighbors_parent.simps)
  apply (metis visit_neighbors_parent_proj visit_neighbors_measure finite_targets
      getNeighbors_targets less_Suc_eq_le)
  done

definition shortestPath :: "Graph \<Rightarrow> int \<Rightarrow> int \<Rightarrow> int list option" where
  "shortestPath g start target =
     (if \<not> hasVertex g start \<or> \<not> hasVertex g target then Some []
      else if start = target then Some [start]
      else shortestPath_loop g target [start] {start} [start \<mapsto> - 1])"

section \<open>\<open>shortestDistance\<close>\<close>

text \<open>
  The inner loop returns from the function as soon as a neighbour is the target
  (\<open>Inl\<close>); otherwise it hands back the visited set and the queue (\<open>Inr\<close>).
\<close>

fun scan_neighbors ::
  "int \<Rightarrow> int \<Rightarrow> int list \<Rightarrow> int set \<Rightarrow> (int \<times> int) list
   \<Rightarrow> int + (int set \<times> (int \<times> int) list)" where
  "scan_neighbors target distance [] visited queue = Inr (visited, queue)"
| "scan_neighbors target distance (neighbor # ns) visited queue =
     (if neighbor = target then Inl (distance + 1)
      else if neighbor \<notin> visited
      then scan_neighbors target distance ns (insert neighbor visited)
             (queue @ [(neighbor, distance + 1)])
      else scan_neighbors target distance ns visited queue)"

lemma scan_neighbors_proj:
  "scan_neighbors target distance ns visited queue = Inr (visited', queue') \<Longrightarrow>
   visit_neighbors ns visited (map fst queue) = (visited', map fst queue')"
proof (induction ns arbitrary: visited queue)
  case Nil
  then show ?case by simp
next
  case (Cons n ns)
  show ?case
  proof (cases "n \<in> visited")
    case True
    with Cons show ?thesis by (simp split: if_splits)
  next
    case False
    with Cons.prems Cons.IH[of "insert n visited" "queue @ [(n, distance + 1)]"]
    show ?thesis by (simp split: if_splits)
  qed
qed

function shortestDistance_loop ::
  "Graph \<Rightarrow> int \<Rightarrow> (int \<times> int) list \<Rightarrow> int set \<Rightarrow> int" where
  "shortestDistance_loop g target [] visited = - 1"
| "shortestDistance_loop g target ((current, distance) # queue) visited =
     (case scan_neighbors target distance (getNeighbors g current) visited queue of
        Inl d \<Rightarrow> d
      | Inr (visited', queue') \<Rightarrow> shortestDistance_loop g target queue' visited')"
  by pat_completeness auto
termination
  apply (relation "measure (\<lambda>(g, target, queue, visited).
                   2 * card (targets g - visited) + length queue)")
   apply simp
  apply (simp del: visit_neighbors.simps scan_neighbors.simps)
  subgoal for g target current distance queue visited x2 x y
    using visit_neighbors_measure[OF scan_neighbors_proj[of target distance
          "getNeighbors g current" visited queue x y] finite_targets getNeighbors_targets]
    by simp
  done

definition shortestDistance :: "Graph \<Rightarrow> int \<Rightarrow> int \<Rightarrow> int" where
  "shortestDistance g start target =
     (if \<not> hasVertex g start \<or> \<not> hasVertex g target then - 1
      else if start = target then 0
      else shortestDistance_loop g target [(start, 0)] {start})"

section \<open>\<open>verticesAtDistance\<close>\<close>

fun visit_neighbors_dist ::
  "int \<Rightarrow> int list \<Rightarrow> int set \<Rightarrow> (int \<times> int) list \<Rightarrow> int set \<times> (int \<times> int) list" where
  "visit_neighbors_dist currentDistance [] visited queue = (visited, queue)"
| "visit_neighbors_dist currentDistance (neighbor # ns) visited queue =
     (if neighbor \<notin> visited
      then visit_neighbors_dist currentDistance ns (insert neighbor visited)
             (queue @ [(neighbor, currentDistance + 1)])
      else visit_neighbors_dist currentDistance ns visited queue)"

lemma visit_neighbors_dist_proj:
  "visit_neighbors_dist distance ns visited queue = (visited', queue') \<Longrightarrow>
   visit_neighbors ns visited (map fst queue) = (visited', map fst queue')"
proof (induction ns arbitrary: visited queue)
  case Nil
  then show ?case by simp
next
  case (Cons n ns)
  show ?case
  proof (cases "n \<in> visited")
    case True
    with Cons show ?thesis by (simp split: if_splits)
  next
    case False
    with Cons.prems Cons.IH[of "insert n visited" "queue @ [(n, distance + 1)]"]
    show ?thesis by (simp split: if_splits)
  qed
qed

function verticesAtDistance_loop ::
  "Graph \<Rightarrow> int \<Rightarrow> (int \<times> int) list \<Rightarrow> int set \<Rightarrow> int list \<Rightarrow> int list" where
  "verticesAtDistance_loop g distance [] visited result = result"
| "verticesAtDistance_loop g distance ((current, currentDistance) # queue) visited result =
     (if currentDistance = distance
      then verticesAtDistance_loop g distance queue visited (result @ [current])
      else if currentDistance < distance
      then (case visit_neighbors_dist currentDistance (getNeighbors g current) visited queue of
              (visited', queue') \<Rightarrow> verticesAtDistance_loop g distance queue' visited' result)
      else verticesAtDistance_loop g distance queue visited result)"
  by pat_completeness auto
termination
  apply (relation "measure (\<lambda>(g, distance, queue, visited, result).
                   2 * card (targets g - visited) + length queue)")
     apply simp
    apply simp
  subgoal
    apply (simp del: visit_neighbors.simps visit_neighbors_dist.simps)
    apply (metis visit_neighbors_dist_proj visit_neighbors_measure finite_targets
      getNeighbors_targets less_Suc_eq_le length_map)
    done
  apply simp
  done

definition verticesAtDistance :: "Graph \<Rightarrow> int \<Rightarrow> int \<Rightarrow> int list" where
  "verticesAtDistance g start distance =
     (if \<not> hasVertex g start \<or> distance < 0 then []
      else if distance = 0 then [start]
      else verticesAtDistance_loop g distance [(start, 0)] {start} [])"

section \<open>\<open>isConnected\<close> and \<open>findConnectedComponents\<close>\<close>

definition isConnected :: "Graph \<Rightarrow> bool" where
  "isConnected g =
     (case getAllVertices g of
        [] \<Rightarrow> True
      | v0 # _ \<Rightarrow> length (traverse g v0) = length (getAllVertices g))"

fun visit_neighbors_global ::
  "int list \<Rightarrow> int set \<Rightarrow> int set \<Rightarrow> int list \<Rightarrow> int set \<times> int set \<times> int list" where
  "visit_neighbors_global [] visited globalVisited queue = (visited, globalVisited, queue)"
| "visit_neighbors_global (neighbor # ns) visited globalVisited queue =
     (if neighbor \<notin> visited
      then visit_neighbors_global ns (insert neighbor visited)
             (insert neighbor globalVisited) (queue @ [neighbor])
      else visit_neighbors_global ns visited globalVisited queue)"

lemma visit_neighbors_global_proj:
  "visit_neighbors_global ns visited globalVisited queue = (visited', globalVisited', queue') \<Longrightarrow>
   visit_neighbors ns visited queue = (visited', queue')"
  by (induction ns arbitrary: visited globalVisited queue) (auto split: if_splits)

function component_loop ::
  "Graph \<Rightarrow> int list \<Rightarrow> int set \<Rightarrow> int set \<Rightarrow> int list \<Rightarrow> int list \<times> int set" where
  "component_loop g [] visited globalVisited component = (component, globalVisited)"
| "component_loop g (current # queue) visited globalVisited component =
     (case visit_neighbors_global (getNeighbors g current) visited globalVisited queue of
        (visited', globalVisited', queue') \<Rightarrow>
          component_loop g queue' visited' globalVisited' (component @ [current]))"
  by pat_completeness auto
termination
  apply (relation "measure (\<lambda>(g, queue, visited, globalVisited, component).
                   2 * card (targets g - visited) + length queue)")
   apply simp
  apply (simp del: visit_neighbors.simps visit_neighbors_global.simps)
  apply (metis visit_neighbors_global_proj visit_neighbors_measure finite_targets
      getNeighbors_targets less_Suc_eq_le)
  done

text \<open>The outer \<open>for\<close> loop over the copy of the vertex list.\<close>

fun components_loop ::
  "Graph \<Rightarrow> int list \<Rightarrow> int set \<Rightarrow> int list list \<Rightarrow> int list list" where
  "components_loop g [] globalVisited components = components"
| "components_loop g (vertex # vs) globalVisited components =
     (if vertex \<notin> globalVisited
      then (case component_loop g [vertex] {vertex} (insert vertex globalVisited) [] of
              (component, globalVisited') \<Rightarrow>
                components_loop g vs globalVisited' (components @ [component]))
      else components_loop g vs globalVisited components)"

definition findConnectedComponents :: "Graph \<Rightarrow> int list list" where
  "findConnectedComponents g = components_loop g (getAllVertices g) {} []"

section \<open>\<open>gridBFS\<close>\<close>

text \<open>
  The grid, the \<open>visited\<close> matrix and the \<open>parent\<close> matrix are vectors of vectors,
  indexed with \<open>operator[]\<close>. An index outside a vector is undefined behaviour in C++;
  the model makes it the error \<open>OutOfRange\<close>, so that a run that reads or writes
  outside a vector is a run that fails. Coordinates are C++ \<open>int\<close>s; the only
  arithmetic on them adds a direction to a cell inside the grid.
\<close>

datatype error = OutOfRange

definition at2 :: "'a list list \<Rightarrow> int \<Rightarrow> int \<Rightarrow> error + 'a" where
  "at2 xss r c =
     (if 0 \<le> r \<and> r < int (length xss) \<and> 0 \<le> c \<and> c < int (length (xss ! nat r))
      then Inr (xss ! nat r ! nat c) else Inl OutOfRange)"

definition set2 :: "'a list list \<Rightarrow> int \<Rightarrow> int \<Rightarrow> 'a \<Rightarrow> error + 'a list list" where
  "set2 xss r c v =
     (if 0 \<le> r \<and> r < int (length xss) \<and> 0 \<le> c \<and> c < int (length (xss ! nat r))
      then Inr (xss[nat r := (xss ! nat r)[nat c := v]]) else Inl OutOfRange)"

type_synonym cell = "int \<times> int"
type_synonym grid_state = "bool list list \<times> cell list list \<times> cell list"

text \<open>Directions: up, down, left, right.\<close>

definition directions :: "cell list" where
  "directions = [(- 1, 0), (1, 0), (0, - 1), (0, 1)]"

text \<open>The body of the loop over the directions, for one direction.\<close>

definition visit_direction ::
  "int list list \<Rightarrow> int \<Rightarrow> int \<Rightarrow> int \<Rightarrow> int \<Rightarrow> cell \<Rightarrow> grid_state \<Rightarrow> error + grid_state" where
  "visit_direction grid rows cols row col d st =
     (case (d, st) of ((dr, dc), (visited, parent, queue)) \<Rightarrow>
        let newRow = row + dr; newCol = col + dc in
        if newRow \<ge> 0 \<and> newRow < rows \<and> newCol \<ge> 0 \<and> newCol < cols
        then (case at2 visited newRow newCol of
                Inl e \<Rightarrow> Inl e
              | Inr seen \<Rightarrow>
                  if \<not> seen
                  then (case at2 grid newRow newCol of
                          Inl e \<Rightarrow> Inl e
                        | Inr v \<Rightarrow>
                            if v = 0
                            then (case set2 visited newRow newCol True of
                                    Inl e \<Rightarrow> Inl e
                                  | Inr visited' \<Rightarrow>
                                      (case set2 parent newRow newCol (row, col) of
                                         Inl e \<Rightarrow> Inl e
                                       | Inr parent' \<Rightarrow>
                                           Inr (visited', parent', queue @ [(newRow, newCol)])))
                            else Inr st)
                  else Inr st)
        else Inr st)"

fun visit_directions ::
  "int list list \<Rightarrow> int \<Rightarrow> int \<Rightarrow> int \<Rightarrow> int \<Rightarrow> cell list \<Rightarrow> grid_state \<Rightarrow> error + grid_state" where
  "visit_directions grid rows cols row col [] st = Inr st"
| "visit_directions grid rows cols row col (d # ds) st =
     (case visit_direction grid rows cols row col d st of
        Inl e \<Rightarrow> Inl e
      | Inr st' \<Rightarrow> visit_directions grid rows cols row col ds st')"

text \<open>
  The walk along the parent matrix, \<open>while (currentRow != -1 && currentCol != -1)\<close>.
  \<open>None\<close> stands for a walk that never ends.
\<close>

partial_function (option) reconstruct_cells ::
  "cell list list \<Rightarrow> int \<Rightarrow> int \<Rightarrow> cell list \<Rightarrow> (error + cell list) option" where
  "reconstruct_cells parent currentRow currentCol path =
     (if currentRow \<noteq> - 1 \<and> currentCol \<noteq> - 1
      then (case at2 parent currentRow currentCol of
              Inl e \<Rightarrow> Some (Inl e)
            | Inr (parentRow, parentCol) \<Rightarrow>
                reconstruct_cells parent parentRow parentCol (path @ [(currentRow, currentCol)]))
      else Some (Inr path))"

text \<open>The number of cells not yet marked in the \<open>visited\<close> matrix.\<close>

definition unvisited :: "bool list list \<Rightarrow> nat" where
  "unvisited visited = sum_list (map (\<lambda>row. sum_list (map (\<lambda>b. if b then 0 else 1) row)) visited)"

lemma row_count_update:
  "j < length row \<Longrightarrow> \<not> row ! j \<Longrightarrow>
   Suc (sum_list (map (\<lambda>b. if b then 0 else 1) (row[j := True]))) =
   sum_list (map (\<lambda>b. if b then 0 else 1) row)"
  by (induction row arbitrary: j) (auto split: nat.splits)

lemma sum_list_update_dec:
  "i < length xs \<Longrightarrow> Suc (f y) = f (xs ! i) \<Longrightarrow>
   Suc (sum_list (map f (xs[i := y]))) = (sum_list (map f xs) :: nat)"
  by (induction xs arbitrary: i) (auto split: nat.splits)

lemma unvisited_set2:
  assumes "at2 visited r c = Inr False" "set2 visited r c True = Inr visited'"
  shows "Suc (unvisited visited') = unvisited visited"
proof -
  from assms(1) have rng: "nat r < length visited" "nat c < length (visited ! nat r)"
    and cell: "\<not> visited ! nat r ! nat c"
    by (auto simp: at2_def split: if_splits)
  from assms(2) have v': "visited' = visited[nat r := (visited ! nat r)[nat c := True]]"
    by (auto simp: set2_def split: if_splits)
  show ?thesis
    unfolding unvisited_def v'
    by (rule sum_list_update_dec[OF rng(1)]) (rule row_count_update[OF rng(2) cell])
qed

lemma visit_direction_measure:
  "visit_direction grid rows cols row col d st = Inr st' \<Longrightarrow>
   2 * unvisited (fst st') + length (snd (snd st')) \<le> 2 * unvisited (fst st) + length (snd (snd st))"
  by (auto simp: visit_direction_def Let_def split: prod.splits if_splits sum.splits
      dest!: unvisited_set2)

lemma visit_directions_measure:
  "visit_directions grid rows cols row col ds st = Inr st' \<Longrightarrow>
   2 * unvisited (fst st') + length (snd (snd st')) \<le> 2 * unvisited (fst st) + length (snd (snd st))"
proof (induction ds arbitrary: st)
  case Nil
  then show ?case by simp
next
  case (Cons d ds)
  then obtain st1 where 1: "visit_direction grid rows cols row col d st = Inr st1"
    and 2: "visit_directions grid rows cols row col ds st1 = Inr st'"
    by (auto split: sum.splits)
  from visit_direction_measure[OF 1] Cons.IH[OF 2] show ?case by simp
qed

function gridBFS_loop ::
  "int list list \<Rightarrow> int \<Rightarrow> int \<Rightarrow> int \<Rightarrow> int \<Rightarrow> cell list \<Rightarrow> bool list list \<Rightarrow> cell list list
   \<Rightarrow> (error + cell list) option" where
  "gridBFS_loop grid rows cols targetRow targetCol [] visited parent = Some (Inr [])"
| "gridBFS_loop grid rows cols targetRow targetCol ((row, col) # queue) visited parent =
     (if row = targetRow \<and> col = targetCol
      then map_option (map_sum id rev) (reconstruct_cells parent targetRow targetCol [])
      else (case visit_directions grid rows cols row col directions (visited, parent, queue) of
              Inl e \<Rightarrow> Some (Inl e)
            | Inr (visited', parent', queue') \<Rightarrow>
                gridBFS_loop grid rows cols targetRow targetCol queue' visited' parent'))"
  by pat_completeness auto
termination
  apply (relation "measure (\<lambda>(grid, rows, cols, targetRow, targetCol, queue, visited, parent).
                   2 * unvisited visited + length queue)")
   apply simp
  apply (auto dest!: visit_directions_measure)
  done

text \<open>
  \<open>std::vector<std::vector<bool>> visited(rows, std::vector<bool>(cols, false))\<close> and
  the parent matrix filled with \<open>{-1, -1}\<close>.
\<close>

definition gridBFS ::
  "int list list \<Rightarrow> int \<Rightarrow> int \<Rightarrow> int \<Rightarrow> int \<Rightarrow> (error + cell list) option" where
  "gridBFS grid startRow startCol targetRow targetCol =
     (case grid of
        [] \<Rightarrow> Some (Inr [])
      | row0 # _ \<Rightarrow>
          if row0 = [] then Some (Inr [])
          else
            let rows = int (length grid); cols = int (length row0) in
            if startRow < 0 \<or> startRow \<ge> rows \<or> startCol < 0 \<or> startCol \<ge> cols \<or>
               targetRow < 0 \<or> targetRow \<ge> rows \<or> targetCol < 0 \<or> targetCol \<ge> cols
            then Some (Inr [])
            else (case at2 grid startRow startCol of
                    Inl e \<Rightarrow> Some (Inl e)
                  | Inr s \<Rightarrow>
                      if s = 1 then Some (Inr [])
                      else (case at2 grid targetRow targetCol of
                              Inl e \<Rightarrow> Some (Inl e)
                            | Inr t \<Rightarrow>
                                if t = 1 then Some (Inr [])
                                else if startRow = targetRow \<and> startCol = targetCol
                                then Some (Inr [(startRow, startCol)])
                                else (case set2 (replicate (nat rows) (replicate (nat cols) False))
                                             startRow startCol True of
                                        Inl e \<Rightarrow> Some (Inl e)
                                      | Inr visited \<Rightarrow>
                                          gridBFS_loop grid rows cols targetRow targetCol
                                            [(startRow, startCol)] visited
                                            (replicate (nat rows) (replicate (nat cols) (- 1, - 1)))))))"

declare reconstruct_path.simps [code]
declare reconstruct_cells.simps [code]

section \<open>Walks, reachability and distance\<close>

inductive walk :: "Graph \<Rightarrow> int \<Rightarrow> nat \<Rightarrow> int \<Rightarrow> bool" for g :: Graph and s :: int where
  walk_start: "walk g s 0 s"
| walk_step: "walk g s n u \<Longrightarrow> v \<in> set (getNeighbors g u) \<Longrightarrow> walk g s (Suc n) v"

definition reachable :: "Graph \<Rightarrow> int \<Rightarrow> int \<Rightarrow> bool" where
  "reachable g s v = (\<exists>n. walk g s n v)"

definition graph_dist :: "Graph \<Rightarrow> int \<Rightarrow> int \<Rightarrow> nat" where
  "graph_dist g s v = (LEAST n. walk g s n v)"

definition eccentricity :: "Graph \<Rightarrow> int \<Rightarrow> nat" where
  "eccentricity g s = Max (graph_dist g s ` {v. reachable g s v})"

inductive_cases walk_zeroE: "walk g s 0 v"
inductive_cases walk_SucE: "walk g s (Suc n) v"

lemma reachable_self: "reachable g s s"
  unfolding reachable_def by (blast intro: walk_start)

lemma graph_dist_self: "graph_dist g s s = 0"
  unfolding graph_dist_def by (simp add: walk_start)

lemma walk_graph_dist: "reachable g s v \<Longrightarrow> walk g s (graph_dist g s v) v"
  unfolding reachable_def graph_dist_def by (erule exE) (rule LeastI)

lemma graph_dist_le: "walk g s n v \<Longrightarrow> graph_dist g s v \<le> n"
  unfolding graph_dist_def by (rule Least_le)

lemma graph_dist_zero: "reachable g s v \<Longrightarrow> graph_dist g s v = 0 \<Longrightarrow> v = s"
  using walk_graph_dist[of g s v] by (auto elim: walk_zeroE)

lemma reachable_step:
  "reachable g s u \<Longrightarrow> v \<in> set (getNeighbors g u) \<Longrightarrow> reachable g s v"
  unfolding reachable_def by (blast intro: walk_step)

lemma graph_dist_step:
  assumes "reachable g s u" "v \<in> set (getNeighbors g u)"
  shows "graph_dist g s v \<le> Suc (graph_dist g s u)"
  by (rule graph_dist_le) (rule walk_step[OF walk_graph_dist[OF assms(1)] assms(2)])

lemma graph_dist_pred:
  assumes "reachable g s v" "graph_dist g s v = Suc n"
  obtains u where "reachable g s u" "graph_dist g s u = n" "v \<in> set (getNeighbors g u)"
proof -
  from walk_graph_dist[OF assms(1)] assms(2) have "walk g s (Suc n) v" by simp
  then obtain u where u: "walk g s n u" "v \<in> set (getNeighbors g u)"
    by (auto elim: walk_SucE)
  then have r: "reachable g s u" by (auto simp: reachable_def)
  have "graph_dist g s u \<le> n" by (rule graph_dist_le[OF u(1)])
  moreover have "Suc n \<le> Suc (graph_dist g s u)"
    using graph_dist_step[OF r u(2)] assms(2) by simp
  ultimately have d: "graph_dist g s u = n" by simp
  show thesis by (rule that[OF r d u(2)])
qed

lemma reachable_subset: "reachable g s v \<Longrightarrow> v \<in> insert s (targets g)"
  unfolding reachable_def
proof (erule exE)
  fix n assume "walk g s n v"
  then show "v \<in> insert s (targets g)"
    by (induction rule: walk.induct) (use getNeighbors_targets in auto)
qed

lemma finite_reachable: "finite {v. reachable g s v}"
  by (rule finite_subset[of _ "insert s (targets g)"])
     (auto simp: finite_targets dest: reachable_subset)

lemma graph_dist_le_eccentricity:
  "reachable g s v \<Longrightarrow> graph_dist g s v \<le> eccentricity g s"
  unfolding eccentricity_def by (rule Max_ge) (auto simp: finite_reachable)


section \<open>The invariant of the searches\<close>

text \<open>
  \<open>out\<close> are the vertices already dequeued, in order, \<open>queue\<close> the frontier, \<open>D\<close> the
  depth below which a dequeued vertex is expanded (\<open>\<infinity>\<close> when every vertex is).
\<close>

definition bfs_inv :: "Graph \<Rightarrow> int \<Rightarrow> enat \<Rightarrow> int list \<Rightarrow> int list \<Rightarrow> bool" where
  "bfs_inv g s D out queue \<longleftrightarrow>
     distinct (out @ queue) \<and>
     s \<in> set (out @ queue) \<and>
     (\<forall>v \<in> set (out @ queue). reachable g s v) \<and>
     sorted (map (graph_dist g s) (out @ queue)) \<and>
     (\<forall>u \<in> set out. enat (graph_dist g s u) < D \<longrightarrow>
        set (getNeighbors g u) \<subseteq> set (out @ queue)) \<and>
     (\<forall>u \<in> set queue. \<forall>v \<in> set (out @ queue). graph_dist g s v \<le> Suc (graph_dist g s u))"

lemma bfs_inv_init: "bfs_inv g s D [] [s]"
  by (simp add: bfs_inv_def reachable_self)

lemma bfs_frontier:
  assumes inv: "bfs_inv g s D out queue"
  shows "reachable g s w \<Longrightarrow> enat (graph_dist g s w) \<le> D \<Longrightarrow> w \<notin> set (out @ queue) \<Longrightarrow>
         \<exists>u \<in> set queue. graph_dist g s u < graph_dist g s w"
proof (induction "graph_dist g s w" arbitrary: w rule: less_induct)
  case less
  show ?case
  proof (cases "graph_dist g s w")
    case 0
    with less.prems(1) have "w = s" by (rule graph_dist_zero)
    with inv less.prems(3) show ?thesis by (simp add: bfs_inv_def)
  next
    case (Suc m)
    from graph_dist_pred[OF less.prems(1) Suc]
    obtain x where x: "reachable g s x" "graph_dist g s x = m" "w \<in> set (getNeighbors g x)"
      by blast
    from less.prems(2) Suc have mD: "enat m < D" by (simp add: Suc_ile_eq)
    consider "x \<in> set out" | "x \<in> set queue" | "x \<notin> set (out @ queue)" by auto
    then show ?thesis
    proof cases
      case 1
      with inv x(2) mD have "set (getNeighbors g x) \<subseteq> set (out @ queue)"
        by (simp add: bfs_inv_def)
      with x(3) less.prems(3) show ?thesis by blast
    next
      case 2
      with x(2) Suc show ?thesis by auto
    next
      case 3
      from mD have "enat (graph_dist g s x) \<le> D" using x(2) by simp
      from less.hyps[OF _ x(1) this 3] x(2) Suc
      obtain u where u: "u \<in> set queue" "graph_dist g s u < graph_dist g s x" by auto
      from u(2) x(2) Suc have "graph_dist g s u < graph_dist g s w" by simp
      with u(1) show ?thesis by blast
    qed
  qed
qed

lemma bfs_inv_complete:
  assumes "bfs_inv g s D out []" "reachable g s w" "enat (graph_dist g s w) \<le> D"
  shows "w \<in> set out"
  using bfs_frontier[OF assms(1) assms(2) assms(3)] by auto

lemma visit_neighbors_spec:
  "visit_neighbors ns visited queue = (visited', queue') \<Longrightarrow>
   \<exists>new. queue' = queue @ new \<and> distinct new \<and> set new = set ns - visited
        \<and> visited' = visited \<union> set ns"
proof (induction ns arbitrary: visited queue)
  case Nil
  then show ?case by simp
next
  case (Cons n ns)
  show ?case
  proof (cases "n \<in> visited")
    case True
    with Cons.prems have "visit_neighbors ns visited queue = (visited', queue')" by simp
    from Cons.IH[OF this] True show ?thesis by auto
  next
    case False
    with Cons.prems
    have "visit_neighbors ns (insert n visited) (queue @ [n]) = (visited', queue')" by simp
    from Cons.IH[OF this] obtain new where new: "queue' = (queue @ [n]) @ new" "distinct new"
      "set new = set ns - insert n visited" "visited' = insert n visited \<union> set ns"
      by blast
    have "queue' = queue @ (n # new)" using new(1) by simp
    moreover have "distinct (n # new)" using new(2,3) by simp
    moreover have "set (n # new) = set (n # ns) - visited" using new(3) False by auto
    moreover have "visited' = visited \<union> set (n # ns)" using new(4) by auto
    ultimately show ?thesis by blast
  qed
qed

lemma bfs_inv_head_least:
  assumes "bfs_inv g s D out (u # rest)" "x \<in> set (u # rest)"
  shows "graph_dist g s u \<le> graph_dist g s x"
  using assms by (auto simp: bfs_inv_def sorted_append)

lemma bfs_inv_new_dist:
  assumes inv: "bfs_inv g s D out (u # rest)" and uD: "enat (graph_dist g s u) < D"
    and w: "w \<in> set (getNeighbors g u)" "w \<notin> set (out @ u # rest)"
  shows "reachable g s w \<and> graph_dist g s w = Suc (graph_dist g s u)"
proof -
  from inv have ru: "reachable g s u" by (simp add: bfs_inv_def)
  have rw: "reachable g s w" by (rule reachable_step[OF ru w(1)])
  have le: "graph_dist g s w \<le> Suc (graph_dist g s u)" by (rule graph_dist_step[OF ru w(1)])
  from uD have "enat (Suc (graph_dist g s u)) \<le> D" by (simp add: Suc_ile_eq)
  with le have "enat (graph_dist g s w) \<le> D"
    by (meson enat_ord_simps(1) order_trans)
  from bfs_frontier[OF inv rw this w(2)]
  obtain x where "x \<in> set (u # rest)" "graph_dist g s x < graph_dist g s w" by blast
  with bfs_inv_head_least[OF inv this(1)] le rw show ?thesis by simp
qed

lemma bfs_inv_expand:
  assumes inv: "bfs_inv g s D out (u # rest)" and uD: "enat (graph_dist g s u) < D"
    and new: "distinct new" "set new = set (getNeighbors g u) - set (out @ u # rest)"
  shows "bfs_inv g s D (out @ [u]) (rest @ new)"
proof -
  let ?d = "graph_dist g s"
  have nd: "\<And>w. w \<in> set new \<Longrightarrow> reachable g s w \<and> ?d w = Suc (?d u)"
    using bfs_inv_new_dist[OF inv uD] new(2) by blast
  have "\<forall>x \<in> set (u # rest). \<forall>v \<in> set (out @ u # rest). ?d v \<le> Suc (?d x)"
    using inv unfolding bfs_inv_def by blast
  then have old: "\<And>v. v \<in> set (out @ u # rest) \<Longrightarrow> ?d v \<le> Suc (?d u)"
    by (meson list.set_intros(1))
  have hl: "\<And>x. x \<in> set rest \<Longrightarrow> ?d u \<le> ?d x"
    using bfs_inv_head_least[OF inv] by simp
  have 1: "distinct ((out @ [u]) @ rest @ new)"
    using inv new by (auto simp: bfs_inv_def)
  have 2: "s \<in> set ((out @ [u]) @ rest @ new)"
    using inv by (auto simp: bfs_inv_def)
  have 3: "\<forall>v \<in> set ((out @ [u]) @ rest @ new). reachable g s v"
    using inv nd by (auto simp: bfs_inv_def)
  have "sorted (map ?d new)"
    using nd by (simp add: sorted_wrt_iff_nth_less sorted_map)
  moreover have "sorted (map ?d (out @ u # rest))" using inv by (simp add: bfs_inv_def)
  ultimately have 4: "sorted (map ?d ((out @ [u]) @ rest @ new))"
    using old nd by (auto simp: sorted_append)
  have 5: "\<forall>x \<in> set (out @ [u]). enat (?d x) < D \<longrightarrow>
             set (getNeighbors g x) \<subseteq> set ((out @ [u]) @ rest @ new)"
    using inv new(2) by (auto simp: bfs_inv_def)
  have 6: "\<forall>x \<in> set (rest @ new). \<forall>v \<in> set ((out @ [u]) @ rest @ new). ?d v \<le> Suc (?d x)"
  proof (intro ballI)
    fix x v assume x: "x \<in> set (rest @ new)" and v: "v \<in> set ((out @ [u]) @ rest @ new)"
    have dx: "?d u \<le> ?d x" using x hl nd by fastforce
    have "?d v \<le> Suc (?d u)" using v old nd by fastforce
    with dx show "?d v \<le> Suc (?d x)" by simp
  qed
  from 1 2 3 4 5 6 show ?thesis unfolding bfs_inv_def by blast
qed

lemma bfs_inv_skip:
  assumes inv: "bfs_inv g s D out (u # rest)" and uD: "D \<le> enat (graph_dist g s u)"
  shows "bfs_inv g s D (out @ [u]) rest"
  using assms unfolding bfs_inv_def by (auto simp: not_less[symmetric])


section \<open>\<open>traverse\<close> is a breadth-first enumeration\<close>

lemma traverse_loop_inv:
  "bfs_inv g s \<infinity> out queue \<Longrightarrow> visited = set (out @ queue) \<Longrightarrow>
   bfs_inv g s \<infinity> (traverse_loop g queue visited out) []"
proof (induction g queue visited out rule: traverse_loop.induct)
  case (1 g visited result)
  then show ?case by simp
next
  case (2 g current queue visited result)
  obtain visited' queue' where
    vn: "visit_neighbors (getNeighbors g current) visited queue = (visited', queue')"
    by (cases "visit_neighbors (getNeighbors g current) visited queue")
  from visit_neighbors_spec[OF vn] obtain new where new: "queue' = queue @ new"
    "distinct new" "set new = set (getNeighbors g current) - visited"
    "visited' = visited \<union> set (getNeighbors g current)" by blast
  have inv': "bfs_inv g s \<infinity> (result @ [current]) queue'"
    unfolding new(1) using "2.prems" new(2,3) by (intro bfs_inv_expand) simp_all
  have vis': "visited' = set ((result @ [current]) @ queue')"
    using new "2.prems"(2) by auto
  from "2.IH"[OF vn[symmetric] inv' vis'] vn show ?case by simp
qed

lemma traverse_bfs_inv:
  "hasVertex g s \<Longrightarrow> bfs_inv g s \<infinity> (traverse g s) []"
proof -
  assume "hasVertex g s"
  moreover have "bfs_inv g s \<infinity> (traverse_loop g [s] {s} []) []"
    by (rule traverse_loop_inv[OF bfs_inv_init]) simp
  ultimately show ?thesis by (simp add: traverse_def)
qed

lemma traverse_distinct: "distinct (traverse g s)"
  using traverse_bfs_inv[of g s] by (cases "hasVertex g s") (simp_all add: bfs_inv_def traverse_def)

lemma traverse_set:
  assumes "hasVertex g s"
  shows "set (traverse g s) = {v. reachable g s v}"
proof -
  note inv = traverse_bfs_inv[OF assms]
  have "\<forall>v \<in> set (traverse g s @ []). reachable g s v"
    using inv unfolding bfs_inv_def by blast
  moreover have "\<And>v. reachable g s v \<Longrightarrow> v \<in> set (traverse g s)"
    by (rule bfs_inv_complete[OF inv]) simp_all
  ultimately show ?thesis by auto
qed

lemma traverse_sorted: "sorted (map (graph_dist g s) (traverse g s))"
  using traverse_bfs_inv[of g s] by (cases "hasVertex g s") (simp_all add: bfs_inv_def traverse_def)


section \<open>\<open>verticesAtDistance\<close> returns a level\<close>

lemma visit_neighbors_dist_spec:
  "visit_neighbors_dist d ns visited queue = (visited', queue') \<Longrightarrow>
   \<exists>new. queue' = queue @ map (\<lambda>n. (n, d + 1)) new \<and> distinct new
        \<and> set new = set ns - visited \<and> visited' = visited \<union> set ns"
proof (induction ns arbitrary: visited queue)
  case Nil
  then show ?case by simp
next
  case (Cons n ns)
  show ?case
  proof (cases "n \<in> visited")
    case True
    with Cons.prems have "visit_neighbors_dist d ns visited queue = (visited', queue')" by simp
    from Cons.IH[OF this] True show ?thesis by auto
  next
    case False
    with Cons.prems
    have "visit_neighbors_dist d ns (insert n visited) (queue @ [(n, d + 1)]) = (visited', queue')"
      by simp
    from Cons.IH[OF this] obtain new where
      new: "queue' = (queue @ [(n, d + 1)]) @ map (\<lambda>n. (n, d + 1)) new" "distinct new"
      "set new = set ns - insert n visited" "visited' = insert n visited \<union> set ns"
      by blast
    have "queue' = queue @ map (\<lambda>n. (n, d + 1)) (n # new)" using new(1) by simp
    moreover have "distinct (n # new)" using new(2,3) by simp
    moreover have "set (n # new) = set (n # ns) - visited" using new(3) False by auto
    moreover have "visited' = visited \<union> set (n # ns)" using new(4) by auto
    ultimately show ?thesis by blast
  qed
qed

definition labelled :: "Graph \<Rightarrow> int \<Rightarrow> (int \<times> int) list \<Rightarrow> bool" where
  "labelled g s queue = (\<forall>(v, d) \<in> set queue. d = int (graph_dist g s v))"

lemma labelled_expand:
  assumes inv: "bfs_inv g s D out (u # map fst rest)" and uD: "enat (graph_dist g s u) < D"
    and new: "set new = set (getNeighbors g u) - set (out @ u # map fst rest)"
    and lab: "labelled g s ((u, d) # rest)"
  shows "labelled g s (rest @ map (\<lambda>n. (n, d + 1)) new)"
proof -
  have "\<And>w. w \<in> set new \<Longrightarrow> graph_dist g s w = Suc (graph_dist g s u)"
    using bfs_inv_new_dist[OF inv uD] new by blast
  moreover from lab have "d = int (graph_dist g s u)" by (simp add: labelled_def)
  ultimately show ?thesis using lab by (auto simp: labelled_def)
qed

lemma verticesAtDistance_loop_inv:
  "bfs_inv g s (enat D) out (map fst queue) \<Longrightarrow> visited = set (out @ map fst queue) \<Longrightarrow>
   labelled g s queue \<Longrightarrow> distance = int D \<Longrightarrow>
   result = filter (\<lambda>v. graph_dist g s v = D) out \<Longrightarrow>
   \<exists>out'. bfs_inv g s (enat D) out' [] \<and>
     verticesAtDistance_loop g distance queue visited result
       = filter (\<lambda>v. graph_dist g s v = D) out'"
proof (induction g distance queue visited result arbitrary: out
    rule: verticesAtDistance_loop.induct)
  case (1 g distance visited result)
  then show ?case by auto
next
  case (2 g distance current currentDistance queue visited result)
  let ?d = "graph_dist g s"
  from "2.prems"(3) have cd: "currentDistance = int (?d current)" and
    lab: "labelled g s queue" by (simp_all add: labelled_def)
  from "2.prems"(1) have inv: "bfs_inv g s (enat D) out (current # map fst queue)" by simp
  consider (eq) "?d current = D" | (lt) "?d current < D" | (gt) "?d current > D"
    by (meson linorder_neqE_nat)
  then show ?case
  proof cases
    case eq
    then have c: "currentDistance = distance" using cd "2.prems"(4) by simp
    have inv': "bfs_inv g s (enat D) (out @ [current]) (map fst queue)"
      using inv eq by (intro bfs_inv_skip) simp_all
    have vis: "visited = set ((out @ [current]) @ map fst queue)" using "2.prems"(2) by auto
    have res: "result @ [current] = filter (\<lambda>v. ?d v = D) (out @ [current])"
      using "2.prems"(5) eq by simp
    from "2.IH"(1)[OF c inv' vis lab "2.prems"(4) res] c show ?thesis by simp
  next
    case lt
    then have c: "currentDistance \<noteq> distance" "currentDistance < distance"
      using cd "2.prems"(4) by simp_all
    obtain visited' queue' where vn:
      "visit_neighbors_dist currentDistance (getNeighbors g current) visited queue
         = (visited', queue')"
      by (cases "visit_neighbors_dist currentDistance (getNeighbors g current) visited queue")
    from visit_neighbors_dist_spec[OF vn] obtain new where
      new: "queue' = queue @ map (\<lambda>n. (n, currentDistance + 1)) new" "distinct new"
      "set new = set (getNeighbors g current) - visited"
      "visited' = visited \<union> set (getNeighbors g current)" by blast
    have uD: "enat (?d current) < enat D" using lt by simp
    have nv: "set new = set (getNeighbors g current) - set (out @ current # map fst queue)"
      using new(3) "2.prems"(2) by simp
    have inv': "bfs_inv g s (enat D) (out @ [current]) (map fst queue')"
      using bfs_inv_expand[OF inv uD new(2) nv] new(1) by (simp add: comp_def)
    have vis': "visited' = set ((out @ [current]) @ map fst queue')"
      using new "2.prems"(2) by (auto simp: comp_def)
    have lab': "labelled g s queue'"
      unfolding new(1) using labelled_expand[OF inv uD nv] "2.prems"(3) by simp
    have res: "result = filter (\<lambda>v. ?d v = D) (out @ [current])"
      using "2.prems"(5) lt by simp
    from "2.IH"(2)[OF c vn[symmetric] inv' vis' lab' "2.prems"(4) res] c vn
    show ?thesis by simp
  next
    case gt
    then have c: "currentDistance \<noteq> distance" "\<not> currentDistance < distance"
      using cd "2.prems"(4) by simp_all
    have inv': "bfs_inv g s (enat D) (out @ [current]) (map fst queue)"
      using inv gt by (intro bfs_inv_skip) simp_all
    have vis: "visited = set ((out @ [current]) @ map fst queue)" using "2.prems"(2) by auto
    have res: "result = filter (\<lambda>v. ?d v = D) (out @ [current])"
      using "2.prems"(5) gt by simp
    from "2.IH"(3)[OF c inv' vis lab "2.prems"(4) res] c show ?thesis by simp
  qed
qed



lemma level_zero: "{v. reachable g s v \<and> int (graph_dist g s v) = 0} = {s}"
proof -
  have "\<And>v. reachable g s v \<Longrightarrow> graph_dist g s v = 0 \<Longrightarrow> v = s" by (rule graph_dist_zero)
  moreover have "reachable g s s" "graph_dist g s s = 0"
    by (rule reachable_self, rule graph_dist_self)
  ultimately show ?thesis by auto
qed

lemma verticesAtDistance_set:
  assumes "hasVertex g s"
  shows "set (verticesAtDistance g s d) = {v. reachable g s v \<and> int (graph_dist g s v) = d}"
proof -
  consider "d < 0" | "d = 0" | "d > 0" by linarith
  then show ?thesis
  proof cases
    case 1
    then show ?thesis by (auto simp: verticesAtDistance_def)
  next
    case 2
    then show ?thesis using assms level_zero[of g s]
      by (simp add: verticesAtDistance_def)
  next
    case 3
    define D where "D = nat d"
    with 3 have d: "d = int D" by simp
    have lab: "labelled g s [(s, 0)]" by (simp add: labelled_def graph_dist_self)
    have inv0: "bfs_inv g s (enat D) [] (map fst [(s, 0::int)])"
      by (simp add: bfs_inv_init)
    have "\<exists>out'. bfs_inv g s (enat D) out' [] \<and>
       verticesAtDistance_loop g d [(s, 0)] {s} [] = filter (\<lambda>v. graph_dist g s v = D) out'"
      by (rule verticesAtDistance_loop_inv[OF inv0 _ lab d]) simp_all
    then obtain out' where out': "bfs_inv g s (enat D) out' []"
      "verticesAtDistance_loop g d [(s, 0)] {s} [] = filter (\<lambda>v. graph_dist g s v = D) out'"
      by blast
    have "\<forall>v \<in> set (out' @ []). reachable g s v" using out'(1) unfolding bfs_inv_def by blast
    then have sub: "\<And>v. v \<in> set out' \<Longrightarrow> reachable g s v" by simp
    have sup: "\<And>v. reachable g s v \<Longrightarrow> graph_dist g s v = D \<Longrightarrow> v \<in> set out'"
      by (rule bfs_inv_complete[OF out'(1)]) simp_all
    have "set (filter (\<lambda>v. graph_dist g s v = D) out')
        = {v. reachable g s v \<and> int (graph_dist g s v) = d}"
      unfolding d using sub sup by auto
    with out'(2) 3 assms show ?thesis by (simp add: verticesAtDistance_def)
  qed
qed

lemma verticesAtDistance_absent:
  "\<not> hasVertex g s \<Longrightarrow> verticesAtDistance g s d = []"
  by (simp add: verticesAtDistance_def)


section \<open>\<open>shortestDistance\<close> is the graph distance\<close>

lemma scan_neighbors_found:
  "target \<in> set ns \<Longrightarrow> scan_neighbors target d ns visited queue = Inl (d + 1)"
  by (induction ns arbitrary: visited queue) auto

lemma scan_neighbors_none:
  "target \<notin> set ns \<Longrightarrow>
   scan_neighbors target d ns visited queue = Inr (visit_neighbors_dist d ns visited queue)"
  by (induction ns arbitrary: visited queue) auto

lemma shortestDistance_loop_inv:
  "bfs_inv g s \<infinity> out (map fst queue) \<Longrightarrow> visited = set (out @ map fst queue) \<Longrightarrow>
   labelled g s queue \<Longrightarrow> target \<notin> visited \<Longrightarrow>
   shortestDistance_loop g target queue visited
     = (if reachable g s target then int (graph_dist g s target) else - 1)"
proof (induction g target queue visited arbitrary: out rule: shortestDistance_loop.induct)
  case (1 g target visited)
  then have "bfs_inv g s \<infinity> out []" "target \<notin> set out" by simp_all
  then have "\<not> reachable g s target" using bfs_inv_complete[of g s \<infinity> out target] by auto
  then show ?case by simp
next
  case (2 g target current distance queue visited)
  let ?d = "graph_dist g s"
  from "2.prems"(3) have cd: "distance = int (?d current)" by (simp add: labelled_def)
  from "2.prems"(1) have inv: "bfs_inv g s \<infinity> out (current # map fst queue)" by simp
  have uD: "enat (?d current) < \<infinity>" by simp
  show ?case
  proof (cases "target \<in> set (getNeighbors g current)")
    case True
    have "target \<notin> set (out @ current # map fst queue)" using "2.prems"(2,4) by simp
    from bfs_inv_new_dist[OF inv uD True this]
    have "reachable g s target" "?d target = Suc (?d current)" by simp_all
    with cd True show ?thesis by (simp add: scan_neighbors_found)
  next
    case False
    obtain visited' queue' where vn:
      "visit_neighbors_dist distance (getNeighbors g current) visited queue = (visited', queue')"
      by (cases "visit_neighbors_dist distance (getNeighbors g current) visited queue")
    with False have sc: "scan_neighbors target distance (getNeighbors g current) visited queue
        = Inr (visited', queue')" by (simp add: scan_neighbors_none)
    from visit_neighbors_dist_spec[OF vn] obtain new where
      new: "queue' = queue @ map (\<lambda>n. (n, distance + 1)) new" "distinct new"
      "set new = set (getNeighbors g current) - visited"
      "visited' = visited \<union> set (getNeighbors g current)" by blast
    have nv: "set new = set (getNeighbors g current) - set (out @ current # map fst queue)"
      using new(3) "2.prems"(2) by simp
    have inv': "bfs_inv g s \<infinity> (out @ [current]) (map fst queue')"
      using bfs_inv_expand[OF inv uD new(2) nv] new(1) by (simp add: comp_def)
    have vis': "visited' = set ((out @ [current]) @ map fst queue')"
      using new "2.prems"(2) by (auto simp: comp_def)
    have lab': "labelled g s queue'"
      unfolding new(1) using labelled_expand[OF inv uD nv] "2.prems"(3) by simp
    have t': "target \<notin> visited'" using new(4) "2.prems"(4) False by simp
    from "2.IH"[OF sc refl inv' vis' lab' t'] sc show ?thesis by simp
  qed
qed

lemma shortestDistance_eq:
  "shortestDistance g s t =
     (if hasVertex g s \<and> hasVertex g t \<and> reachable g s t then int (graph_dist g s t) else - 1)"
proof (cases "hasVertex g s \<and> hasVertex g t")
  case False
  then show ?thesis by (auto simp: shortestDistance_def)
next
  case True
  show ?thesis
  proof (cases "s = t")
    case True
    with \<open>hasVertex g s \<and> hasVertex g t\<close> show ?thesis
      by (simp add: shortestDistance_def reachable_self graph_dist_self)
  next
    case False
    have lab: "labelled g s [(s, 0)]" by (simp add: labelled_def graph_dist_self)
    have inv0: "bfs_inv g s \<infinity> [] (map fst [(s, 0::int)])" by (simp add: bfs_inv_init)
    have "shortestDistance_loop g t [(s, 0)] {s}
        = (if reachable g s t then int (graph_dist g s t) else - 1)"
      by (rule shortestDistance_loop_inv[OF inv0 _ lab]) (use False in simp_all)
    with True False show ?thesis by (simp add: shortestDistance_def)
  qed
qed

section \<open>Graphs built as undirected\<close>

datatype graph_op = AddVertex int | AddEdge int int

fun apply_op :: "Graph \<Rightarrow> graph_op \<Rightarrow> Graph" where
  "apply_op g (AddVertex v) = addVertex g v"
| "apply_op g (AddEdge u v) = addEdge g u v"

definition build :: "bool \<Rightarrow> graph_op list \<Rightarrow> Graph" where
  "build directed ops = foldl apply_op (new_Graph directed) ops"

definition symmetric_adj :: "Graph \<Rightarrow> bool" where
  "symmetric_adj g = (\<forall>u v. v \<in> set (getNeighbors g u) \<longrightarrow> u \<in> set (getNeighbors g v))"

lemma map_of_push_back_at:
  "map_of (push_back_at k x m) k' =
     (if k' = k then Some ((case map_of m k of None \<Rightarrow> [] | Some xs \<Rightarrow> xs) @ [x])
      else map_of m k')"
  by (induction m) auto

lemma getNeighbors_addEdge:
  "getNeighbors (addEdge g u v) w =
     (if isDirected g then getNeighbors g w @ (if w = u then [v] else [])
      else getNeighbors g w @ (if w = u then [v] else []) @ (if w = v then [u] else []))"
  by (auto simp: getNeighbors_def addEdge_def Let_def map_of_push_back_at split: option.splits)

lemma getNeighbors_addVertex: "getNeighbors (addVertex g v) w = getNeighbors g w"
  by (auto simp: getNeighbors_def addVertex_def split: option.splits if_splits)

lemma isDirected_apply_op: "isDirected (apply_op g op) = isDirected g"
  by (cases op) (auto simp: addVertex_def addEdge_def Let_def)

lemma symmetric_adj_apply_op:
  "\<not> isDirected g \<Longrightarrow> symmetric_adj g \<Longrightarrow> symmetric_adj (apply_op g op)"
  by (cases op) (auto simp: symmetric_adj_def getNeighbors_addEdge getNeighbors_addVertex)

lemma foldl_apply_op_symmetric:
  "\<not> isDirected g \<Longrightarrow> symmetric_adj g \<Longrightarrow> symmetric_adj (foldl apply_op g ops)"
  by (induction ops arbitrary: g) (simp_all add: isDirected_apply_op symmetric_adj_apply_op)

lemma build_symmetric: "symmetric_adj (build False ops)"
  unfolding build_def
  by (rule foldl_apply_op_symmetric) (simp_all add: new_Graph_def symmetric_adj_def getNeighbors_def)

lemma walk_append:
  "walk g u m v \<Longrightarrow> walk g s n u \<Longrightarrow> walk g s (n + m) v"
  by (induction rule: walk.induct) (auto intro: walk_step)

lemma walk_reverse:
  assumes "symmetric_adj g"
  shows "walk g s n v \<Longrightarrow> walk g v n s"
proof (induction rule: walk.induct)
  case walk_start
  show ?case by (rule walk.walk_start)
next
  case (walk_step n u v)
  from assms walk_step.hyps(2) have "u \<in> set (getNeighbors g v)" by (simp add: symmetric_adj_def)
  then have "walk g v (Suc 0) u" by (blast intro: walk.intros)
  from walk_append[OF walk_step.IH this] show ?case by simp
qed

lemma reachable_sym: "symmetric_adj g \<Longrightarrow> reachable g s v = reachable g v s"
  unfolding reachable_def by (blast dest: walk_reverse)

lemma graph_dist_sym: "symmetric_adj g \<Longrightarrow> graph_dist g s v = graph_dist g v s"
  unfolding graph_dist_def by (rule arg_cong[where f=Least]) (blast dest: walk_reverse)

lemma shortestDistance_symmetric:
  "symmetric_adj g \<Longrightarrow> shortestDistance g u v = shortestDistance g v u"
  by (simp add: shortestDistance_eq reachable_sym[of g u v] graph_dist_sym[of g u v] conj_commute)


section \<open>Connected components\<close>

lemma visit_neighbors_global_spec:
  "visit_neighbors_global ns visited globalVisited queue = (visited', globalVisited', queue') \<Longrightarrow>
   globalVisited' = globalVisited \<union> (set ns - visited)"
  by (induction ns arbitrary: visited globalVisited queue) (auto split: if_splits)

lemma traverse_loop_mono: "set result \<union> set queue \<subseteq> set (traverse_loop g queue visited result)"
proof (induction g queue visited result rule: traverse_loop.induct)
  case (1 g visited result)
  then show ?case by simp
next
  case (2 g current queue visited result)
  obtain visited' queue' where
    vn: "visit_neighbors (getNeighbors g current) visited queue = (visited', queue')"
    by (cases "visit_neighbors (getNeighbors g current) visited queue")
  from visit_neighbors_spec[OF vn] obtain new where "queue' = queue @ new" by blast
  with "2.IH"[OF vn[symmetric]] vn show ?case by auto
qed

lemma component_loop_eq:
  "set component \<union> set queue \<subseteq> globalVisited \<Longrightarrow>
   component_loop g queue visited globalVisited component
     = (traverse_loop g queue visited component,
        globalVisited \<union> set (traverse_loop g queue visited component))"
proof (induction g queue visited globalVisited component rule: component_loop.induct)
  case (1 g visited globalVisited component)
  then show ?case by auto
next
  case (2 g current queue visited globalVisited component)
  obtain visited' globalVisited' queue' where vg:
    "visit_neighbors_global (getNeighbors g current) visited globalVisited queue
       = (visited', globalVisited', queue')"
    by (cases "visit_neighbors_global (getNeighbors g current) visited globalVisited queue")
  note vn = visit_neighbors_global_proj[OF vg]
  note gv = visit_neighbors_global_spec[OF vg]
  from visit_neighbors_spec[OF vn] obtain new where new: "queue' = queue @ new"
    "set new = set (getNeighbors g current) - visited" by blast
  have sub: "set (component @ [current]) \<union> set queue' \<subseteq> globalVisited'"
    using "2.prems" new gv by auto
  have "set queue' \<subseteq> set (traverse_loop g queue' visited' (component @ [current]))"
    using traverse_loop_mono[of "component @ [current]" queue' g visited'] by simp
  then have "globalVisited' \<union> set (traverse_loop g queue' visited' (component @ [current]))
      = globalVisited \<union> set (traverse_loop g queue' visited' (component @ [current]))"
    using gv new by auto
  with "2.IH"[OF vg[symmetric] refl sub] vg vn show ?case by simp
qed

lemma component_of_seed:
  assumes "hasVertex g v"
  shows "component_loop g [v] {v} (insert v globalVisited) []
           = (traverse g v, globalVisited \<union> set (traverse g v))"
proof -
  have "v \<in> set (traverse_loop g [v] {v} [])"
    using traverse_loop_mono[of "[]" "[v]" g "{v}"] by simp
  moreover have "component_loop g [v] {v} (insert v globalVisited) []
      = (traverse_loop g [v] {v} [],
         insert v globalVisited \<union> set (traverse_loop g [v] {v} []))"
    by (rule component_loop_eq) simp
  ultimately show ?thesis using assms
    by (simp add: traverse_def insert_absorb del: traverse_loop.simps component_loop.simps)
qed

lemma hasVertex_iff: "hasVertex g v \<longleftrightarrow> v \<in> set (getAllVertices g)"
  by (simp add: hasVertex_def getAllVertices_def map_of_eq_None_iff)

lemma reachable_trans: "reachable g s u \<Longrightarrow> reachable g u v \<Longrightarrow> reachable g s v"
  unfolding reachable_def by (blast dest: walk_append)

lemma symmetric_neighbor_hasVertex:
  assumes "symmetric_adj g" "w \<in> set (getNeighbors g u)"
  shows "hasVertex g w"
proof -
  from assms have "u \<in> set (getNeighbors g w)" by (simp add: symmetric_adj_def)
  then show ?thesis
    by (cases "map_of (adjList g) w") (auto simp: getNeighbors_def hasVertex_def)
qed

lemma symmetric_reachable_hasVertex:
  assumes "symmetric_adj g" "hasVertex g s" "reachable g s v"
  shows "hasVertex g v"
proof -
  from assms(3) obtain n where "walk g s n v" by (auto simp: reachable_def)
  then show ?thesis
    by (induction rule: walk.induct) (use assms in \<open>auto dest: symmetric_neighbor_hasVertex\<close>)
qed

definition pairwise_disjoint :: "int list list \<Rightarrow> bool" where
  "pairwise_disjoint cs =
     (\<forall>i j. i < j \<and> j < length cs \<longrightarrow> set (cs ! i) \<inter> set (cs ! j) = {})"

lemma pairwise_disjoint_sorted_wrt:
  "pairwise_disjoint cs = sorted_wrt (\<lambda>a b. set a \<inter> set b = {}) cs"
  by (auto simp: pairwise_disjoint_def sorted_wrt_iff_nth_less)

lemma components_loop_inv:
  "symmetric_adj g \<Longrightarrow> \<forall>v \<in> set vs. hasVertex g v \<Longrightarrow>
     globalVisited = \<Union>(set ` set components) \<Longrightarrow>
     \<forall>c \<in> set components. \<exists>v. hasVertex g v \<and> c = traverse g v \<Longrightarrow>
     pairwise_disjoint components \<Longrightarrow>
     pairwise_disjoint (components_loop g vs globalVisited components) \<and>
     \<Union>(set ` set (components_loop g vs globalVisited components))
       \<supseteq> globalVisited \<union> set vs \<and>
     (\<forall>c \<in> set (components_loop g vs globalVisited components).
        \<exists>v. hasVertex g v \<and> c = traverse g v)"
proof (induction g vs globalVisited components rule: components_loop.induct)
  case (1 g globalVisited components)
  then show ?case by simp
next
  case (2 g vertex vs globalVisited components)
  note sym = "2.prems"(1)
  from "2.prems"(2) have hv: "hasVertex g vertex" and hvs: "\<forall>v \<in> set vs. hasVertex g v"
    by simp_all
  show ?case
  proof (cases "vertex \<in> globalVisited")
    case True
    from "2.IH"(2)[OF _ sym hvs "2.prems"(3,4,5)] True show ?thesis by auto
  next
    case False
    let ?c = "traverse g vertex"
    have cl: "component_loop g [vertex] {vertex} (insert vertex globalVisited) []
        = (?c, globalVisited \<union> set ?c)" by (rule component_of_seed[OF hv])
    have cset: "set ?c = {w. reachable g vertex w}" by (rule traverse_set[OF hv])
    have disj: "set c' \<inter> set ?c = {}" if c': "c' \<in> set components" for c'
    proof (rule ccontr)
      assume "set c' \<inter> set ?c \<noteq> {}"
      then obtain x where x: "x \<in> set c'" "x \<in> set ?c" by blast
      from "2.prems"(4) c' obtain v where v: "hasVertex g v" "c' = traverse g v" by blast
      from x(1) v have "reachable g v x" by (simp add: traverse_set)
      moreover from x(2) cset have "reachable g x vertex" by (simp add: reachable_sym[OF sym])
      ultimately have "reachable g v vertex" by (rule reachable_trans)
      then have "vertex \<in> set c'" using v by (simp add: traverse_set)
      with c' "2.prems"(3) False show False by blast
    qed
    have pd: "pairwise_disjoint (components @ [?c])"
      using "2.prems"(5) disj by (auto simp: pairwise_disjoint_sorted_wrt sorted_wrt_append)
    have gv: "globalVisited \<union> set ?c = \<Union>(set ` set (components @ [?c]))"
      using "2.prems"(3) by auto
    have cs: "\<forall>c \<in> set (components @ [?c]). \<exists>v. hasVertex g v \<and> c = traverse g v"
      using "2.prems"(4) hv by auto
    have "vertex \<in> set ?c" using cset by (simp add: reachable_self)
    with "2.IH"(1)[OF False cl[symmetric] sym hvs gv cs pd] False cl
    show ?thesis by auto
  qed
qed

lemma findConnectedComponents_partition:
  assumes "symmetric_adj g"
  shows "pairwise_disjoint (findConnectedComponents g)"
    and "\<Union>(set ` set (findConnectedComponents g)) = set (getAllVertices g)"
proof -
  have inv: "pairwise_disjoint (components_loop g (getAllVertices g) {} []) \<and>
     \<Union>(set ` set (components_loop g (getAllVertices g) {} []))
       \<supseteq> {} \<union> set (getAllVertices g) \<and>
     (\<forall>c \<in> set (components_loop g (getAllVertices g) {} []).
        \<exists>v. hasVertex g v \<and> c = traverse g v)"
    by (rule components_loop_inv[OF assms]) (simp_all add: hasVertex_iff pairwise_disjoint_def)
  then show "pairwise_disjoint (findConnectedComponents g)"
    by (simp add: findConnectedComponents_def)
  have "set c \<subseteq> set (getAllVertices g)" if "c \<in> set (findConnectedComponents g)" for c
  proof -
    from inv that obtain v where v: "hasVertex g v" "c = traverse g v"
      by (auto simp: findConnectedComponents_def)
    then show ?thesis
      using symmetric_reachable_hasVertex[OF assms v(1)]
      by (auto simp: traverse_set hasVertex_iff)
  qed
  with inv show "\<Union>(set ` set (findConnectedComponents g)) = set (getAllVertices g)"
    by (auto simp: findConnectedComponents_def)
qed


section \<open>Paths on the grid\<close>

definition in_bounds :: "int list list \<Rightarrow> cell \<Rightarrow> bool" where
  "in_bounds grid cell =
     (0 \<le> fst cell \<and> fst cell < int (length grid) \<and>
      0 \<le> snd cell \<and> snd cell < int (length (hd grid)))"

definition step_between :: "cell \<Rightarrow> cell \<Rightarrow> bool" where
  "step_between a b = ((fst b - fst a, snd b - snd a) \<in> set directions)"

definition marked :: "bool list list \<Rightarrow> cell \<Rightarrow> bool" where
  "marked visited cell = (at2 visited (fst cell) (snd cell) = Inr True)"

text \<open>
  \<open>trail grid start parent cell path\<close>: following the parent matrix from \<open>cell\<close> leads to
  \<open>start\<close>, and \<open>path\<close> is the cells met, from \<open>start\<close> to \<open>cell\<close>.
\<close>

inductive trail :: "int list list \<Rightarrow> cell \<Rightarrow> cell list list \<Rightarrow> cell \<Rightarrow> cell list \<Rightarrow> bool"
  for grid :: "int list list" and start :: cell and parent :: "cell list list" where
  trail_start:
    "in_bounds grid start \<Longrightarrow> at2 parent (fst start) (snd start) = Inr (- 1, - 1) \<Longrightarrow>
     trail grid start parent start [start]"
| trail_step:
    "trail grid start parent prev path \<Longrightarrow> in_bounds grid cell \<Longrightarrow>
     at2 grid (fst cell) (snd cell) = Inr 0 \<Longrightarrow>
     at2 parent (fst cell) (snd cell) = Inr prev \<Longrightarrow> step_between prev cell \<Longrightarrow>
     trail grid start parent cell (path @ [cell])"

lemma trail_reconstruct:
  "trail grid start parent cell path \<Longrightarrow>
   reconstruct_cells parent (fst cell) (snd cell) acc = Some (Inr (acc @ rev path))"
proof (induction arbitrary: acc rule: trail.induct)
  case trail_start
  have ne: "fst start \<noteq> - 1 \<and> snd start \<noteq> - 1" using trail_start(1) by (auto simp: in_bounds_def)
  have "reconstruct_cells parent (- 1) (- 1) (acc @ [start]) = Some (Inr (acc @ [start]))"
    by (subst reconstruct_cells.simps) simp
  then show ?case
    using ne trail_start(2) by (subst reconstruct_cells.simps) simp
next
  case (trail_step prev path cell)
  have ne: "fst cell \<noteq> - 1 \<and> snd cell \<noteq> - 1" using trail_step(2) by (auto simp: in_bounds_def)
  have "reconstruct_cells parent (fst prev) (snd prev) (acc @ [cell])
      = Some (Inr ((acc @ [cell]) @ rev path))" by (rule trail_step.IH)
  then show ?case
    using ne trail_step(4) by (subst reconstruct_cells.simps) (simp add: case_prod_beta)
qed

lemma trail_nonempty: "trail grid start parent cell path \<Longrightarrow> path \<noteq> []"
  by (induction rule: trail.induct) auto

lemma trail_hd: "trail grid start parent cell path \<Longrightarrow> hd path = start"
  by (induction rule: trail.induct) (auto dest: trail_nonempty)

lemma trail_last: "trail grid start parent cell path \<Longrightarrow> last path = cell"
  by (induction rule: trail.induct) auto

lemma trail_in_bounds: "trail grid start parent cell path \<Longrightarrow> \<forall>x \<in> set path. in_bounds grid x"
  by (induction rule: trail.induct) auto

lemma trail_passable:
  "trail grid start parent cell path \<Longrightarrow>
   \<forall>x \<in> set (tl path). at2 grid (fst x) (snd x) = Inr 0"
proof (induction rule: trail.induct)
  case trail_start
  then show ?case by simp
next
  case (trail_step prev path cell)
  from trail_nonempty[OF trail_step.hyps(1)] have "tl (path @ [cell]) = tl path @ [cell]"
    by simp
  with trail_step show ?case by auto
qed

lemma trail_steps:
  "trail grid start parent cell path \<Longrightarrow>
   \<forall>i. Suc i < length path \<longrightarrow> step_between (path ! i) (path ! Suc i)"
proof (induction rule: trail.induct)
  case trail_start
  then show ?case by simp
next
  case (trail_step prev path cell)
  show ?case
  proof (intro allI impI)
    fix i assume i: "Suc i < length (path @ [cell])"
    show "step_between ((path @ [cell]) ! i) ((path @ [cell]) ! Suc i)"
    proof (cases "Suc i < length path")
      case True
      with trail_step.IH show ?thesis by (simp add: nth_append)
    next
      case False
      with i have e: "Suc i = length path" by simp
      then have "path ! i = last path"
        using trail_nonempty[OF trail_step.hyps(1)] last_conv_nth[of path]
        by (metis diff_Suc_1)
      with trail_last[OF trail_step.hyps(1)] e trail_step.hyps(5)
      show ?thesis by (simp add: nth_append)
    qed
  qed
qed

lemma at2_set2_same: "set2 xss r c v = Inr xss' \<Longrightarrow> at2 xss' r c = Inr v"
  by (auto simp: at2_def set2_def split: if_splits)

lemma at2_set2_other:
  assumes "set2 xss r c v = Inr xss'" "(r', c') \<noteq> (r, c)"
  shows "at2 xss' r' c' = at2 xss r' c'"
proof -
  from assms(1) have rng: "0 \<le> r" "nat r < length xss" "0 \<le> c" "nat c < length (xss ! nat r)"
    and x: "xss' = xss[nat r := (xss ! nat r)[nat c := v]]"
    by (auto simp: set2_def split: if_splits)
  show ?thesis
  proof (cases "0 \<le> r' \<and> r' < int (length xss) \<and> 0 \<le> c'")
    case False
    then show ?thesis by (auto simp: at2_def x)
  next
    case True
    show ?thesis
    proof (cases "r' = r")
      case True
      with assms(2) \<open>0 \<le> r' \<and> r' < int (length xss) \<and> 0 \<le> c'\<close> rng
      have "nat c' \<noteq> nat c" by auto
      with True rng show ?thesis by (simp add: at2_def x)
    next
      case False
      with True rng have "nat r' \<noteq> nat r" by auto
      then show ?thesis by (simp add: at2_def x)
    qed
  qed
qed

lemma trail_frame:
  assumes "set2 parent (fst n) (snd n) v = Inr parent'"
  shows "trail grid start parent cell path \<Longrightarrow> n \<notin> set path \<Longrightarrow>
         trail grid start parent' cell path"
proof (induction rule: trail.induct)
  case trail_start
  then have "(fst start, snd start) \<noteq> (fst n, snd n)" by (auto simp: prod_eq_iff)
  from at2_set2_other[OF assms this] trail_start show ?case
    by (auto intro: trail.trail_start)
next
  case (trail_step prev path cell)
  then have "(fst cell, snd cell) \<noteq> (fst n, snd n)" by (auto simp: prod_eq_iff)
  from at2_set2_other[OF assms this] trail_step show ?case
    by (auto intro: trail.trail_step)
qed

lemma marked_set2:
  "set2 visited r c True = Inr visited' \<Longrightarrow> marked visited x \<Longrightarrow> marked visited' x"
  unfolding marked_def
  by (cases "(fst x, snd x) = (r, c)") (auto simp: at2_set2_same at2_set2_other)

definition grid_inv ::
  "int list list \<Rightarrow> cell \<Rightarrow> bool list list \<Rightarrow> cell list list \<Rightarrow> cell list \<Rightarrow> bool" where
  "grid_inv grid start visited parent cells =
     (\<forall>cell \<in> set cells. \<exists>path. trail grid start parent cell path
                             \<and> (\<forall>x \<in> set path. marked visited x))"

lemma visit_direction_inv:
  assumes vd: "visit_direction grid rows cols row col d (visited, parent, queue)
                 = Inr (visited', parent', queue')"
    and dims: "rows = int (length grid)" "cols = int (length (hd grid))"
    and d: "d \<in> set directions"
    and inv: "grid_inv grid start visited parent ((row, col) # queue)"
  shows "grid_inv grid start visited' parent' ((row, col) # queue')"
proof -
  obtain dr dc where dd: "d = (dr, dc)" by (cases d)
  let ?n = "(row + dr, col + dc)"
  show ?thesis
  proof (cases "(visited', parent', queue') = (visited, parent, queue)")
    case True
    with inv show ?thesis by simp
  next
    case False
    with vd dd have b: "0 \<le> row + dr" "row + dr < rows" "0 \<le> col + dc" "col + dc < cols"
      and unseen: "at2 visited (row + dr) (col + dc) = Inr False"
      and pass: "at2 grid (row + dr) (col + dc) = Inr 0"
      and v': "set2 visited (row + dr) (col + dc) True = Inr visited'"
      and p': "set2 parent (row + dr) (col + dc) (row, col) = Inr parent'"
      and q': "queue' = queue @ [?n]"
      by (auto simp: visit_direction_def Let_def split: if_splits sum.splits)
    have notin: "?n \<notin> set path" if "\<forall>x \<in> set path. marked visited x" for path
      using that unseen by (auto simp: marked_def)
    have keep: "\<exists>path. trail grid start parent' cell path \<and> (\<forall>x \<in> set path. marked visited' x)"
      if "cell \<in> set ((row, col) # queue)" for cell
    proof -
      from inv that obtain path where path: "trail grid start parent cell path"
        "\<forall>x \<in> set path. marked visited x" unfolding grid_inv_def by blast
      have "trail grid start parent' cell path"
        by (rule trail_frame[where n="?n" and v="(row, col)", OF _ path(1) notin[OF path(2)]])
           (simp add: p')
      moreover have "\<forall>x \<in> set path. marked visited' x"
        using path(2) marked_set2[OF v'] by blast
      ultimately show ?thesis by blast
    qed
    from keep[of "(row, col)"] obtain path where path: "trail grid start parent' (row, col) path"
      "\<forall>x \<in> set path. marked visited' x" by auto
    have "in_bounds grid ?n" using b dims by (simp add: in_bounds_def)
    moreover have "at2 parent' (fst ?n) (snd ?n) = Inr (row, col)"
      using at2_set2_same[OF p'] by simp
    moreover have "step_between (row, col) ?n"
      using d dd by (simp add: step_between_def)
    ultimately have "trail grid start parent' ?n (path @ [?n])"
      using path(1) pass by (intro trail_step) simp_all
    moreover have "\<forall>x \<in> set (path @ [?n]). marked visited' x"
      using path(2) at2_set2_same[OF v'] by (auto simp: marked_def)
    ultimately have "\<exists>path. trail grid start parent' ?n path \<and> (\<forall>x \<in> set path. marked visited' x)"
      by blast
    with keep q' show ?thesis unfolding grid_inv_def by auto
  qed
qed

lemma visit_directions_inv:
  "visit_directions grid rows cols row col ds (visited, parent, queue)
     = Inr (visited', parent', queue') \<Longrightarrow>
   rows = int (length grid) \<Longrightarrow> cols = int (length (hd grid)) \<Longrightarrow>
   set ds \<subseteq> set directions \<Longrightarrow>
   grid_inv grid start visited parent ((row, col) # queue) \<Longrightarrow>
   grid_inv grid start visited' parent' ((row, col) # queue')"
proof (induction ds arbitrary: visited parent queue)
  case Nil
  then show ?case by simp
next
  case (Cons d ds)
  from Cons.prems(1) obtain v1 p1 q1 where
    1: "visit_direction grid rows cols row col d (visited, parent, queue) = Inr (v1, p1, q1)"
    and 2: "visit_directions grid rows cols row col ds (v1, p1, q1) = Inr (visited', parent', queue')"
    by (auto split: sum.splits)
  have "grid_inv grid start v1 p1 ((row, col) # q1)"
    by (rule visit_direction_inv[OF 1 Cons.prems(2,3) _ Cons.prems(5)]) (use Cons.prems(4) in simp)
  from Cons.IH[OF 2 Cons.prems(2,3) _ this] Cons.prems(4) show ?case by simp
qed

lemma gridBFS_loop_trail:
  "gridBFS_loop grid rows cols targetRow targetCol queue visited parent = Some (Inr path) \<Longrightarrow>
   path \<noteq> [] \<Longrightarrow> rows = int (length grid) \<Longrightarrow> cols = int (length (hd grid)) \<Longrightarrow>
   grid_inv grid start visited parent queue \<Longrightarrow>
   \<exists>parent'. trail grid start parent' (targetRow, targetCol) path"
proof (induction grid rows cols targetRow targetCol queue visited parent
    rule: gridBFS_loop.induct)
  case (1 grid rows cols targetRow targetCol visited parent)
  then show ?case by simp
next
  case (2 grid rows cols targetRow targetCol row col queue visited parent)
  show ?case
  proof (cases "row = targetRow \<and> col = targetCol")
    case True
    from "2.prems"(5) obtain p where p: "trail grid start parent (row, col) p"
      unfolding grid_inv_def by auto
    from trail_reconstruct[OF p, of "[]"] True "2.prems"(1) have "path = p" by simp
    with p True show ?thesis by blast
  next
    case False
    with "2.prems"(1,2) obtain visited' parent' queue' where
      vd: "visit_directions grid rows cols row col directions (visited, parent, queue)
             = Inr (visited', parent', queue')"
      by (auto split: sum.splits)
    have "grid_inv grid start visited' parent' ((row, col) # queue')"
      by (rule visit_directions_inv[OF vd "2.prems"(3,4) _ "2.prems"(5)]) simp
    then have inv': "grid_inv grid start visited' parent' queue'" by (simp add: grid_inv_def)
    from "2.prems"(1) False vd
    have "gridBFS_loop grid rows cols targetRow targetCol queue' visited' parent' = Some (Inr path)"
      by simp
    from "2.IH"[OF False vd refl refl this "2.prems"(2,3,4) inv'] show ?thesis .
  qed
qed


lemma at2_replicate:
  "0 \<le> r \<Longrightarrow> r < rows \<Longrightarrow> 0 \<le> c \<Longrightarrow> c < cols \<Longrightarrow>
   at2 (replicate (nat rows) (replicate (nat cols) v)) r c = Inr v"
  by (simp add: at2_def)

lemma gridBFS_trail:
  assumes run: "gridBFS grid startRow startCol targetRow targetCol = Some (Inr path)"
    and ne: "path \<noteq> []"
  shows "in_bounds grid (startRow, startCol)"
    and "\<exists>v. at2 grid startRow startCol = Inr v \<and> v \<noteq> 1"
    and "path = [(startRow, startCol)] \<and> (startRow, startCol) = (targetRow, targetCol)
         \<or> (\<exists>parent. trail grid (startRow, startCol) parent (targetRow, targetCol) path)"
proof -
  let ?rows = "int (length grid)" and ?cols = "int (length (hd grid))"
  let ?start = "(startRow, startCol)"
  from run ne obtain row0 rest where g: "grid = row0 # rest" "row0 \<noteq> []"
    by (cases grid) (auto simp: gridBFS_def split: if_splits)
  then have hd: "hd grid = row0" by simp
  from run ne g have b: "0 \<le> startRow" "startRow < ?rows" "0 \<le> startCol" "startCol < ?cols"
    by (auto simp: gridBFS_def Let_def split: if_splits)
  then show ib: "in_bounds grid ?start" by (simp add: in_bounds_def)
  from run ne g b obtain v where v: "at2 grid startRow startCol = Inr v" "v \<noteq> 1"
    by (auto simp: gridBFS_def Let_def split: if_splits sum.splits)
  then show "\<exists>v. at2 grid startRow startCol = Inr v \<and> v \<noteq> 1" by blast
  show "path = [?start] \<and> ?start = (targetRow, targetCol)
         \<or> (\<exists>parent. trail grid ?start parent (targetRow, targetCol) path)"
  proof (cases "startRow = targetRow \<and> startCol = targetCol")
    case True
    with run ne g b v show ?thesis
      by (auto simp: gridBFS_def Let_def split: if_splits sum.splits)
  next
    case False
    let ?p0 = "replicate (nat ?rows) (replicate (nat ?cols) (- 1 :: int, - 1 :: int))"
    from run ne g b v False obtain visited where
      vis: "set2 (replicate (nat ?rows) (replicate (nat ?cols) False)) startRow startCol True
              = Inr visited"
      and loop: "gridBFS_loop grid ?rows ?cols targetRow targetCol [?start] visited ?p0
              = Some (Inr path)"
      by (auto simp: gridBFS_def Let_def split: if_splits sum.splits)
    have "at2 ?p0 startRow startCol = Inr (- 1, - 1)" using b by (rule at2_replicate)
    with ib have "trail grid ?start ?p0 ?start [?start]" by (intro trail_start) simp_all
    moreover have "marked visited ?start" using at2_set2_same[OF vis] by (simp add: marked_def)
    ultimately have "grid_inv grid ?start visited ?p0 [?start]"
      unfolding grid_inv_def by auto
    from gridBFS_loop_trail[OF loop ne refl refl this] show ?thesis by blast
  qed
qed

section \<open>The grid search returns\<close>

definition rows_cover :: "int list list \<Rightarrow> bool" where
  "rows_cover grid = (\<forall>row \<in> set grid. length (hd grid) \<le> length row)"

definition dims_ok :: "int \<Rightarrow> int \<Rightarrow> 'a list list \<Rightarrow> bool" where
  "dims_ok rows cols xss = (length xss = nat rows \<and> (\<forall>row \<in> set xss. length row = nat cols))"

lemma dims_ok_at2:
  "dims_ok rows cols xss \<Longrightarrow> 0 \<le> r \<Longrightarrow> r < rows \<Longrightarrow> 0 \<le> c \<Longrightarrow> c < cols \<Longrightarrow>
   \<exists>v. at2 xss r c = Inr v"
  by (auto simp: dims_ok_def at2_def)

lemma dims_ok_set2:
  "dims_ok rows cols xss \<Longrightarrow> 0 \<le> r \<Longrightarrow> r < rows \<Longrightarrow> 0 \<le> c \<Longrightarrow> c < cols \<Longrightarrow>
   \<exists>xss'. set2 xss r c v = Inr xss' \<and> dims_ok rows cols xss'"
  by (auto simp: dims_ok_def set2_def dest!: set_update_subset_insert[THEN subsetD])

lemma rows_cover_at2:
  "rows_cover grid \<Longrightarrow> 0 \<le> r \<Longrightarrow> r < int (length grid) \<Longrightarrow> 0 \<le> c \<Longrightarrow>
   c < int (length (hd grid)) \<Longrightarrow> \<exists>v. at2 grid r c = Inr v"
proof -
  assume a: "rows_cover grid" "0 \<le> r" "r < int (length grid)" "0 \<le> c"
    "c < int (length (hd grid))"
  then have "grid ! nat r \<in> set grid" by simp
  with a(1) have "length (hd grid) \<le> length (grid ! nat r)" by (simp add: rows_cover_def)
  with a show ?thesis by (simp add: at2_def)
qed

lemma dims_ok_replicate:
  "dims_ok (int n) (int m) (replicate (nat (int n)) (replicate (nat (int m)) v))"
  by (simp add: dims_ok_def)

lemma visit_direction_returns:
  assumes "rows_cover grid" "rows = int (length grid)" "cols = int (length (hd grid))"
    "dims_ok rows cols visited" "dims_ok rows cols parent"
  shows "\<exists>visited' parent' queue'.
           visit_direction grid rows cols row col d (visited, parent, queue)
             = Inr (visited', parent', queue')
           \<and> dims_ok rows cols visited' \<and> dims_ok rows cols parent'"
proof -
  obtain dr dc where d: "d = (dr, dc)" by (cases d)
  let ?r = "row + dr" and ?c = "col + dc"
  show ?thesis
  proof (cases "?r \<ge> 0 \<and> ?r < rows \<and> ?c \<ge> 0 \<and> ?c < cols")
    case False
    with assms d show ?thesis by (auto simp: visit_direction_def Let_def)
  next
    case True
    then have b: "0 \<le> ?r" "?r < rows" "0 \<le> ?c" "?c < cols" by simp_all
    from dims_ok_at2[OF assms(4) b] obtain seen where seen: "at2 visited ?r ?c = Inr seen" by blast
    from rows_cover_at2[OF assms(1)] b assms(2,3)
    obtain v where v: "at2 grid ?r ?c = Inr v" by blast
    from dims_ok_set2[OF assms(4) b] obtain visited' where
      v': "set2 visited ?r ?c True = Inr visited'" "dims_ok rows cols visited'" by blast
    from dims_ok_set2[OF assms(5) b] obtain parent' where
      p': "set2 parent ?r ?c (row, col) = Inr parent'" "dims_ok rows cols parent'" by blast
    from True d seen v v' p' assms(4,5) show ?thesis
      by (simp add: visit_direction_def Let_def)
  qed
qed

lemma visit_directions_returns:
  "rows_cover grid \<Longrightarrow> rows = int (length grid) \<Longrightarrow> cols = int (length (hd grid)) \<Longrightarrow>
   dims_ok rows cols visited \<Longrightarrow> dims_ok rows cols parent \<Longrightarrow>
   \<exists>visited' parent' queue'.
      visit_directions grid rows cols row col ds (visited, parent, queue)
        = Inr (visited', parent', queue')
      \<and> dims_ok rows cols visited' \<and> dims_ok rows cols parent'"
proof (induction ds arbitrary: visited parent queue)
  case Nil
  then show ?case by simp
next
  case (Cons d ds)
  from visit_direction_returns[OF Cons.prems, of row col d queue]
  obtain v1 p1 q1 where
    1: "visit_direction grid rows cols row col d (visited, parent, queue) = Inr (v1, p1, q1)"
    "dims_ok rows cols v1" "dims_ok rows cols p1" by blast
  from Cons.IH[OF Cons.prems(1,2,3) 1(2,3), of q1] 1(1) show ?case by simp
qed

lemma gridBFS_loop_returns:
  "rows_cover grid \<Longrightarrow> rows = int (length grid) \<Longrightarrow> cols = int (length (hd grid)) \<Longrightarrow>
   dims_ok rows cols visited \<Longrightarrow> dims_ok rows cols parent \<Longrightarrow>
   grid_inv grid start visited parent queue \<Longrightarrow>
   \<exists>path. gridBFS_loop grid rows cols targetRow targetCol queue visited parent = Some (Inr path)"
proof (induction grid rows cols targetRow targetCol queue visited parent
    rule: gridBFS_loop.induct)
  case (1 grid rows cols targetRow targetCol visited parent)
  then show ?case by simp
next
  case (2 grid rows cols targetRow targetCol row col queue visited parent)
  show ?case
  proof (cases "row = targetRow \<and> col = targetCol")
    case True
    from "2.prems"(6) obtain p where p: "trail grid start parent (row, col) p"
      unfolding grid_inv_def by auto
    from trail_reconstruct[OF p, of "[]"] True show ?thesis by simp
  next
    case False
    from visit_directions_returns[OF "2.prems"(1,2,3,4,5), of row col directions queue]
    obtain visited' parent' queue' where
      vd: "visit_directions grid rows cols row col directions (visited, parent, queue)
             = Inr (visited', parent', queue')"
      and dims': "dims_ok rows cols visited'" "dims_ok rows cols parent'" by blast
    have "grid_inv grid start visited' parent' ((row, col) # queue')"
      by (rule visit_directions_inv[OF vd "2.prems"(2,3) _ "2.prems"(6)]) simp
    then have inv': "grid_inv grid start visited' parent' queue'" by (simp add: grid_inv_def)
    from "2.IH"[OF False vd refl refl "2.prems"(1,2,3) dims' inv'] False vd
    show ?thesis by auto
  qed
qed

lemma gridBFS_returns:
  assumes "rows_cover grid"
  shows "\<exists>path. gridBFS grid startRow startCol targetRow targetCol = Some (Inr path)"
proof (cases grid)
  case Nil
  then show ?thesis by (simp add: gridBFS_def)
next
  case (Cons row0 rest)
  let ?rows = "int (length grid)" and ?cols = "int (length (hd grid))"
  let ?start = "(startRow, startCol)"
  show ?thesis
  proof (cases "row0 = [] \<or> startRow < 0 \<or> startRow \<ge> ?rows \<or> startCol < 0 \<or> startCol \<ge> ?cols \<or>
               targetRow < 0 \<or> targetRow \<ge> ?rows \<or> targetCol < 0 \<or> targetCol \<ge> ?cols")
    case True
    with Cons show ?thesis by (auto simp: gridBFS_def Let_def)
  next
    case False
    then have b: "0 \<le> startRow" "startRow < ?rows" "0 \<le> startCol" "startCol < ?cols"
      and bt: "0 \<le> targetRow" "targetRow < ?rows" "0 \<le> targetCol" "targetCol < ?cols"
      by simp_all
    from rows_cover_at2[OF assms b] obtain sv where sv: "at2 grid startRow startCol = Inr sv"
      by blast
    from rows_cover_at2[OF assms bt] obtain tv where tv: "at2 grid targetRow targetCol = Inr tv"
      by blast
    let ?v0 = "replicate (nat ?rows) (replicate (nat ?cols) False)"
    let ?p0 = "replicate (nat ?rows) (replicate (nat ?cols) (- 1 :: int, - 1 :: int))"
    have dv0: "dims_ok ?rows ?cols ?v0" and dp0: "dims_ok ?rows ?cols ?p0"
      by (rule dims_ok_replicate)+
    from dims_ok_set2[OF dv0 b] obtain visited where
      vis: "set2 ?v0 startRow startCol True = Inr visited" "dims_ok ?rows ?cols visited" by blast
    have "at2 ?p0 startRow startCol = Inr (- 1, - 1)" using b by (rule at2_replicate)
    moreover have "in_bounds grid ?start" using b by (simp add: in_bounds_def)
    ultimately have "trail grid ?start ?p0 ?start [?start]" by (intro trail_start) simp_all
    moreover have "marked visited ?start" using at2_set2_same[OF vis(1)] by (simp add: marked_def)
    ultimately have "grid_inv grid ?start visited ?p0 [?start]"
      unfolding grid_inv_def by auto
    from gridBFS_loop_returns[OF assms refl refl vis(2) dp0 this]
    obtain path where
      "gridBFS_loop grid ?rows ?cols targetRow targetCol [?start] visited ?p0 = Some (Inr path)"
      by blast
    with False Cons sv tv vis(1) show ?thesis
      by (auto simp: gridBFS_def Let_def)
  qed
qed




section \<open>\<open>shortestPath\<close> returns\<close>

text \<open>
  \<open>parent_chain parent node links\<close>: the walk along the parent links from \<open>node\<close> stops,
  and \<open>links\<close> is the vertices it pushes.
\<close>

inductive parent_chain :: "(int \<rightharpoonup> int) \<Rightarrow> int \<Rightarrow> int list \<Rightarrow> bool"
  for parent :: "int \<rightharpoonup> int" where
  chain_stop: "parent_chain parent (- 1) []"
| chain_step: "node \<noteq> - 1 \<Longrightarrow> parent_chain parent (parent_at parent node) links \<Longrightarrow>
     parent_chain parent node (node # links)"

lemma parent_chain_reconstruct:
  "parent_chain parent node links \<Longrightarrow> reconstruct_path parent node acc = Some (acc @ links)"
proof (induction arbitrary: acc rule: parent_chain.induct)
  case chain_stop
  show ?case by (subst reconstruct_path.simps) simp
next
  case (chain_step node links)
  from chain_step.IH[of "acc @ [node]"] chain_step.hyps(1) show ?case
    by (subst reconstruct_path.simps) simp
qed

lemma parent_chain_frame:
  "parent_chain parent node links \<Longrightarrow> n \<notin> set links \<Longrightarrow>
   parent_chain (parent(n \<mapsto> x)) node links"
proof (induction rule: parent_chain.induct)
  case chain_stop
  show ?case by (rule parent_chain.chain_stop)
next
  case (chain_step node links)
  have eq: "parent_at (parent(n \<mapsto> x)) node = parent_at parent node"
    using chain_step.prems by (simp add: parent_at_def)
  have "parent_chain (parent(n \<mapsto> x)) (parent_at parent node) links"
    by (rule chain_step.IH) (use chain_step.prems in simp)
  then have "parent_chain (parent(n \<mapsto> x)) (parent_at (parent(n \<mapsto> x)) node) links"
    by (simp only: eq)
  with chain_step.hyps(1) show ?case by (rule parent_chain.chain_step)
qed








section \<open>Which vertices \<open>addEdge\<close> creates\<close>

lemma hasVertex_addEdge:
  "hasVertex (addEdge g u v) w \<longleftrightarrow>
     w = u \<or> (\<not> isDirected g \<and> w = v) \<or> hasVertex g w"
  by (auto simp: hasVertex_def addEdge_def Let_def map_of_push_back_at)

lemma addEdge_undirected_creates_both:
  "\<not> isDirected g \<Longrightarrow> hasVertex (addEdge g u v) u \<and> hasVertex (addEdge g u v) v"
  by (simp add: hasVertex_addEdge)

lemma fst_push_back_at:
  "map fst (push_back_at k x m) = (if k \<in> fst ` set m then map fst m else map fst m @ [k])"
  by (induction m) (auto split: if_splits)

lemma distinct_push_back_at:
  "distinct (map fst m) \<Longrightarrow> distinct (map fst (push_back_at k x m))"
  by (simp add: fst_push_back_at)

lemma wf_graph_apply_op: "wf_graph g \<Longrightarrow> wf_graph (apply_op g op)"
proof (cases op)
  case (AddVertex v)
  assume "wf_graph g"
  then show ?thesis using AddVertex
    by (auto simp: wf_graph_def addVertex_def map_of_eq_None_iff)
next
  case (AddEdge u v)
  assume "wf_graph g"
  then show ?thesis using AddEdge
    by (simp add: wf_graph_def addEdge_def Let_def distinct_push_back_at)
qed

lemma wf_graph_build: "wf_graph (build directed ops)"
proof -
  have "wf_graph g \<Longrightarrow> wf_graph (foldl apply_op g ops)" for g
    by (induction ops arbitrary: g) (simp_all add: wf_graph_apply_op)
  then show ?thesis by (simp add: build_def new_Graph_def wf_graph_def)
qed

section \<open>\<open>isConnected\<close> against the number of components\<close>

text \<open>A graph is closed when every stored neighbour is a vertex of the graph.\<close>

definition closed_graph :: "Graph \<Rightarrow> bool" where
  "closed_graph g = (\<forall>v \<in> targets g. hasVertex g v)"

lemma components_loop_length:
  "length components \<le> length (components_loop g vs globalVisited components)"
proof (induction g vs globalVisited components rule: components_loop.induct)
  case (1 g globalVisited components)
  show ?case by simp
next
  case (2 g vertex vs globalVisited components)
  show ?case
  proof (cases "vertex \<in> globalVisited")
    case True
    with "2.IH"(2) show ?thesis by simp
  next
    case False
    obtain component globalVisited' where c:
      "component_loop g [vertex] {vertex} (insert vertex globalVisited) []
         = (component, globalVisited')"
      by (cases "component_loop g [vertex] {vertex} (insert vertex globalVisited) []")
    from "2.IH"(1)[OF False c[symmetric]] False c show ?thesis by simp
  qed
qed

lemma components_loop_same_length:
  "length (components_loop g vs globalVisited components) = length components
     \<longleftrightarrow> set vs \<subseteq> globalVisited"
proof (induction g vs globalVisited components rule: components_loop.induct)
  case (1 g globalVisited components)
  show ?case by simp
next
  case (2 g vertex vs globalVisited components)
  show ?case
  proof (cases "vertex \<in> globalVisited")
    case True
    with "2.IH"(2) show ?thesis by simp
  next
    case False
    obtain component globalVisited' where c:
      "component_loop g [vertex] {vertex} (insert vertex globalVisited) []
         = (component, globalVisited')"
      by (cases "component_loop g [vertex] {vertex} (insert vertex globalVisited) []")
    have "length (components @ [component])
        \<le> length (components_loop g vs globalVisited' (components @ [component]))"
      by (rule components_loop_length)
    with False c show ?thesis by simp
  qed
qed

lemma closed_reachable_hasVertex:
  assumes "closed_graph g" "hasVertex g s" "reachable g s v"
  shows "hasVertex g v"
proof -
  from assms(3) obtain n where "walk g s n v" by (auto simp: reachable_def)
  then show ?thesis
  proof (induction rule: walk.induct)
    case walk_start
    show ?case by (rule assms(2))
  next
    case (walk_step n u v)
    with getNeighbors_targets[of g u] have "v \<in> targets g" by blast
    with assms(1) show ?case by (simp add: closed_graph_def)
  qed
qed

lemma isConnected_iff_one_component:
  assumes wf: "wf_graph g" and cl: "closed_graph g"
  shows "isConnected g \<longleftrightarrow>
           length (findConnectedComponents g) = 1
           \<or> (getAllVertices g = [] \<and> findConnectedComponents g = [])"
proof (cases "getAllVertices g")
  case Nil
  then show ?thesis by (simp add: isConnected_def findConnectedComponents_def)
next
  case (Cons v0 vs)
  then have hv: "hasVertex g v0" by (simp add: hasVertex_iff)
  let ?t = "traverse g v0"
  have sub: "set ?t \<subseteq> set (getAllVertices g)"
    using closed_reachable_hasVertex[OF cl hv] by (auto simp: traverse_set[OF hv] hasVertex_iff)
  have dv: "distinct (getAllVertices g)" using wf by (simp add: wf_graph_def getAllVertices_def)
  have "length ?t = length (getAllVertices g) \<longleftrightarrow> set ?t = set (getAllVertices g)"
  proof
    assume "length ?t = length (getAllVertices g)"
    then have "card (set ?t) = card (set (getAllVertices g))"
      using traverse_distinct[of g v0] dv by (simp add: distinct_card)
    with sub show "set ?t = set (getAllVertices g)" by (simp add: card_subset_eq)
  next
    assume "set ?t = set (getAllVertices g)"
    then have "card (set ?t) = card (set (getAllVertices g))" by simp
    then show "length ?t = length (getAllVertices g)"
      using traverse_distinct[of g v0] dv by (simp add: distinct_card)
  qed
  then have ic: "isConnected g \<longleftrightarrow> set ?t = set (getAllVertices g)"
    using Cons by (simp add: isConnected_def)
  have v0t: "v0 \<in> set ?t" by (simp add: traverse_set[OF hv] reachable_self)
  have "findConnectedComponents g = components_loop g vs (set ?t) [?t]"
    using Cons component_of_seed[OF hv, of "{}"]
    by (simp add: findConnectedComponents_def del: component_loop.simps)
  then have "length (findConnectedComponents g) = 1 \<longleftrightarrow> set vs \<subseteq> set ?t"
    using components_loop_same_length[of g vs "set ?t" "[?t]"] by simp
  also have "\<dots> \<longleftrightarrow> set ?t = set (getAllVertices g)"
    using sub v0t Cons by auto
  finally show ?thesis using ic Cons by simp
qed


section \<open>\<open>shortestPath\<close> against \<open>shortestDistance\<close> when no vertex is \<open>-1\<close>\<close>

definition length_inv ::
  "Graph \<Rightarrow> int \<Rightarrow> (int \<rightharpoonup> int) \<Rightarrow> int set \<Rightarrow> int list \<Rightarrow> bool" where
  "length_inv g s parent visited vs =
     (\<forall>v \<in> set vs. \<exists>links. parent_chain parent v links \<and> set links \<subseteq> visited
                         \<and> length links = Suc (graph_dist g s v))"

lemma visit_neighbors_parent_length:
  "visit_neighbors_parent current ns visited parent queue = (visited', parent', queue') \<Longrightarrow>
   length_inv g s parent visited (current # queue) \<Longrightarrow>
   \<forall>n \<in> set ns. n \<notin> visited \<longrightarrow> n \<noteq> - 1 \<and> graph_dist g s n = Suc (graph_dist g s current) \<Longrightarrow>
   length_inv g s parent' visited' (current # queue')"
proof (induction ns arbitrary: visited parent queue)
  case Nil
  then show ?case by simp
next
  case (Cons n ns)
  show ?case
  proof (cases "n \<in> visited")
    case True
    with Cons show ?thesis by simp
  next
    case False
    let ?parent = "parent(n \<mapsto> current)"
    from Cons.prems(3) False have n: "n \<noteq> - 1" "graph_dist g s n = Suc (graph_dist g s current)"
      by simp_all
    have keep: "\<exists>links. parent_chain ?parent v links \<and> set links \<subseteq> insert n visited
                  \<and> length links = Suc (graph_dist g s v)"
      if "v \<in> set (current # queue)" for v
    proof -
      from Cons.prems(2) that obtain links where links: "parent_chain parent v links"
        "set links \<subseteq> visited" "length links = Suc (graph_dist g s v)"
        unfolding length_inv_def by blast
      with False have "n \<notin> set links" by blast
      from parent_chain_frame[OF links(1) this] links(2,3) show ?thesis by blast
    qed
    from keep[of current] obtain links where links: "parent_chain ?parent current links"
      "set links \<subseteq> insert n visited" "length links = Suc (graph_dist g s current)" by auto
    have "parent_at ?parent n = current" by (simp add: parent_at_def)
    with n(1) links(1) have "parent_chain ?parent n (n # links)"
      by (auto intro: chain_step)
    with links(2,3) n(2)
    have "\<exists>l. parent_chain ?parent n l \<and> set l \<subseteq> insert n visited
               \<and> length l = Suc (graph_dist g s n)"
      by (intro exI[of _ "n # links"]) simp
    with keep have inv: "length_inv g s ?parent (insert n visited) (current # (queue @ [n]))"
      unfolding length_inv_def by auto
    from Cons.prems(1) False
    have run: "visit_neighbors_parent current ns (insert n visited) ?parent (queue @ [n])
        = (visited', parent', queue')" by simp
    from Cons.prems(3) have "\<forall>m \<in> set ns. m \<notin> insert n visited \<longrightarrow>
        m \<noteq> - 1 \<and> graph_dist g s m = Suc (graph_dist g s current)" by simp
    from Cons.IH[OF run inv this] show ?thesis .
  qed
qed

lemma shortestPath_loop_length:
  "bfs_inv g s \<infinity> out queue \<Longrightarrow> visited = set (out @ queue) \<Longrightarrow>
   length_inv g s parent visited queue \<Longrightarrow> reachable g s target \<Longrightarrow>
   target \<notin> set out \<Longrightarrow> \<not> reachable g s (- 1) \<Longrightarrow>
   \<exists>path. shortestPath_loop g target queue visited parent = Some path
         \<and> length path = Suc (graph_dist g s target)"
proof (induction g target queue visited parent arbitrary: out rule: shortestPath_loop.induct)
  case (1 g target visited parent)
  from bfs_inv_complete[OF "1.prems"(1) "1.prems"(4)] "1.prems"(5) show ?case by simp
next
  case (2 g target current queue visited parent)
  let ?d = "graph_dist g s"
  note inv = "2.prems"(1)
  have uD: "enat (?d current) < \<infinity>" by simp
  show ?case
  proof (cases "current = target")
    case True
    from "2.prems"(3) obtain links where links: "parent_chain parent current links"
      "length links = Suc (?d current)" unfolding length_inv_def by auto
    from parent_chain_reconstruct[OF links(1), of "[]"] links(2) True show ?thesis by simp
  next
    case False
    obtain visited' parent' queue' where vn:
      "visit_neighbors_parent current (getNeighbors g current) visited parent queue
         = (visited', parent', queue')"
      by (cases "visit_neighbors_parent current (getNeighbors g current) visited parent queue")
    from visit_neighbors_spec[OF visit_neighbors_parent_proj[OF vn]] obtain new where
      new: "queue' = queue @ new" "distinct new"
      "set new = set (getNeighbors g current) - visited"
      "visited' = visited \<union> set (getNeighbors g current)" by blast
    have nv: "set new = set (getNeighbors g current) - set (out @ current # queue)"
      using new(3) "2.prems"(2) by simp
    have inv': "bfs_inv g s \<infinity> (out @ [current]) queue'"
      unfolding new(1) by (rule bfs_inv_expand[OF inv uD new(2) nv])
    have vis': "visited' = set ((out @ [current]) @ queue')"
      using new "2.prems"(2) by auto
    have fresh: "\<forall>n \<in> set (getNeighbors g current). n \<notin> visited \<longrightarrow>
        n \<noteq> - 1 \<and> ?d n = Suc (?d current)"
    proof (intro ballI impI)
      fix n assume n: "n \<in> set (getNeighbors g current)" "n \<notin> visited"
      then have "n \<notin> set (out @ current # queue)" using "2.prems"(2) by simp
      from bfs_inv_new_dist[OF inv uD n(1) this] "2.prems"(6)
      show "n \<noteq> - 1 \<and> ?d n = Suc (?d current)" by auto
    qed
    have "length_inv g s parent' visited' (current # queue')"
      by (rule visit_neighbors_parent_length[OF vn _ fresh])
         (use "2.prems"(3) in \<open>simp add: length_inv_def\<close>)
    then have len': "length_inv g s parent' visited' queue'" by (simp add: length_inv_def)
    have t': "target \<notin> set (out @ [current])" using "2.prems"(5) False by simp
    from "2.IH"[OF False vn[symmetric] refl inv' vis' len' "2.prems"(4) t' "2.prems"(6)] False vn
    show ?thesis by simp
  qed
qed

lemma shortestPath_length:
  assumes "hasVertex g s" "hasVertex g t" "reachable g s t" "\<not> reachable g s (- 1)"
  shows "\<exists>path. shortestPath g s t = Some path \<and> shortestDistance g s t = int (length path) - 1"
proof (cases "s = t")
  case True
  with assms show ?thesis by (simp add: shortestPath_def shortestDistance_def)
next
  case False
  from assms(4) have s1: "s \<noteq> - 1" using reachable_self[of g s] by auto
  have "parent_at [s \<mapsto> - 1] s = - 1" by (simp add: parent_at_def)
  with s1 have "parent_chain [s \<mapsto> - 1] s [s]"
    using chain_step[of s "[s \<mapsto> - 1]" "[]"] chain_stop[of "[s \<mapsto> - 1]"] by simp
  then have "length_inv g s [s \<mapsto> - 1] {s} [s]"
    unfolding length_inv_def by (auto simp: graph_dist_self intro!: exI[of _ "[s]"])
  from shortestPath_loop_length[OF bfs_inv_init _ this assms(3) _ assms(4)]
  obtain path where "shortestPath_loop g t [s] {s} [s \<mapsto> - 1] = Some path"
    "length path = Suc (graph_dist g s t)" by auto
  with assms False show ?thesis
    by (simp add: shortestPath_def shortestDistance_eq del: shortestPath_loop.simps)
qed


section \<open>Scenarios\<close>

definition scenarioB_grid :: "int list list" where
  "scenarioB_grid = [[0, 0, 0], [1, 1, 0], [0, 0, 0]]"

text \<open>
  C1, as stated: on the grid of scenario B, from (0,0) to (2,0), the path has 5 cells.
  It has not: the number of cells of the returned path is not 5.
\<close>

theorem gridBFS_scenarioB_not_five:
  "map_option (map_sum id length) (gridBFS scenarioB_grid 0 0 2 0) \<noteq> Some (Inr 5)"
  unfolding scenarioB_grid_def by code_simp

text \<open>
  C1, amended: on the grid of scenario B, from (0,0) to (2,0), \<open>gridBFS\<close> returns the
  path that goes along row 0 to column 2, down column 2 and back along row 2; it has
  7 cells (6 steps).
\<close>

theorem gridBFS_scenarioB:
  "gridBFS scenarioB_grid 0 0 2 0
     = Some (Inr [(0, 0), (0, 1), (0, 2), (1, 2), (2, 2), (2, 1), (2, 0)])
   \<and> map_option (map_sum id length) (gridBFS scenarioB_grid 0 0 2 0) = Some (Inr 7)"
  unfolding scenarioB_grid_def by code_simp

text \<open>
  C2 at a directed graph: after \<open>addEdge(1, 2)\<close> on an empty directed graph the source
  vertex 1 is present and the destination vertex 2 is not; \<open>shortestPath\<close> and
  \<open>shortestDistance\<close> from 1 to 2 then answer "no path" across the edge just added.
  On an undirected graph both vertices are present (\<open>addEdge_undirected_creates_both\<close>).
\<close>

theorem addEdge_directed_destination_absent:
  "hasVertex (addEdge (new_Graph True) 1 2) 1
   \<and> \<not> hasVertex (addEdge (new_Graph True) 1 2) 2
   \<and> getNeighbors (addEdge (new_Graph True) 1 2) 1 = [2]
   \<and> shortestPath (addEdge (new_Graph True) 1 2) 1 2 = Some []
   \<and> shortestDistance (addEdge (new_Graph True) 1 2) 1 2 = - 1"
  by code_simp

theorem addEdge_directed_destination_absent_witness:
  "\<not> hasVertex (addEdge (new_Graph True) 1 2) 2"
  using addEdge_directed_destination_absent by simp

text \<open>
  C4 at a graph with the vertex \<open>-1\<close>: in the undirected graph with the one edge
  \<open>(1, -1)\<close> the target \<open>-1\<close> is one step from 1 and \<open>shortestDistance\<close> says so, but
  \<open>shortestPath\<close> returns the empty sequence; with the edges \<open>(1, -1)\<close> and \<open>(-1, 2)\<close>
  the distance from 1 to 2 is 2 and the path returned is \<open>[2]\<close>. When \<open>-1\<close> is not
  reachable from the start, the two queries agree (\<open>shortestPath_length\<close>).
\<close>

theorem shortestPath_sentinel_vertex:
  "shortestDistance (addEdge (new_Graph False) 1 (- 1)) 1 (- 1) = 1
   \<and> shortestPath (addEdge (new_Graph False) 1 (- 1)) 1 (- 1) = Some []
   \<and> shortestDistance (addEdge (addEdge (new_Graph False) 1 (- 1)) (- 1) 2) 1 2 = 2
   \<and> shortestPath (addEdge (addEdge (new_Graph False) 1 (- 1)) (- 1) 2) 1 2 = Some [2]"
  by code_simp

theorem shortestPath_sentinel_vertex_witness:
  "shortestPath (addEdge (new_Graph False) 1 (- 1)) 1 (- 1) = Some []"
  using shortestPath_sentinel_vertex by simp

text \<open>
  C5 at a directed graph: with the edges \<open>1 \<rightarrow> 2\<close> and \<open>4 \<rightarrow> 5\<close> the vertices are 1 and 4,
  \<open>isConnected\<close> is true and \<open>findConnectedComponents\<close> returns two components. The same
  holds when the vertices are enumerated in the other order. When every stored neighbour
  is a vertex of the graph, the two queries agree (\<open>isConnected_iff_one_component\<close>).
\<close>

theorem isConnected_directed_two_components:
  "isConnected (addEdge (addEdge (new_Graph True) 1 2) 4 5)
   \<and> findConnectedComponents (addEdge (addEdge (new_Graph True) 1 2) 4 5) = [[1, 2], [4, 5]]
   \<and> isConnected (addEdge (addEdge (new_Graph True) 4 5) 1 2)
   \<and> findConnectedComponents (addEdge (addEdge (new_Graph True) 4 5) 1 2) = [[4, 5], [1, 2]]"
  by code_simp

section \<open>Properties of the traversal\<close>

text \<open>Scenario A: the undirected graph with the edges (1,2), (2,3), (1,4), (4,3).\<close>

definition scenarioA_graph :: Graph where
  "scenarioA_graph = addEdge (addEdge (addEdge (addEdge (new_Graph False) 1 2) 2 3) 1 4) 4 3"

text \<open>
  C6: for a vertex \<open>s\<close> of the graph, \<open>traverse g s\<close> lists every vertex reachable from
  \<open>s\<close> exactly once (no vertex twice, every reachable vertex), and its set of vertices
  is the union of the results of \<open>verticesAtDistance g s d\<close> for \<open>d\<close> from 0 to the
  eccentricity of \<open>s\<close>.
\<close>

theorem traverse_reachable_once_levels:
  assumes "hasVertex g s"
  shows "distinct (traverse g s)
       \<and> set (traverse g s) = {v. reachable g s v}
       \<and> set (traverse g s)
           = (\<Union>d \<in> {0..eccentricity g s}. set (verticesAtDistance g s (int d)))"
proof -
  have "(\<Union>d \<in> {0..eccentricity g s}. set (verticesAtDistance g s (int d)))
          = {v. reachable g s v}"
    using graph_dist_le_eccentricity[of g s]
    by (auto simp: verticesAtDistance_set[OF assms])
  then show ?thesis
    by (simp add: traverse_distinct traverse_set[OF assms])
qed

theorem traverse_reachable_once_levels_witness:
  "hasVertex scenarioA_graph 1
   \<and> distinct (traverse scenarioA_graph 1)
   \<and> set (traverse scenarioA_graph 1) = {v. reachable scenarioA_graph 1 v}
   \<and> set (traverse scenarioA_graph 1)
       = (\<Union>d \<in> {0..eccentricity scenarioA_graph 1}.
             set (verticesAtDistance scenarioA_graph 1 (int d)))"
proof -
  have h: "hasVertex scenarioA_graph 1"
    unfolding scenarioA_graph_def by code_simp
  from h traverse_reachable_once_levels[OF h] show ?thesis by (rule conjI)
qed

text \<open>
  C8: \<open>traverse g s\<close> holds no vertex twice (a vertex is discovered at most once), each of
  its vertices is reachable from \<open>s\<close>, and if \<open>u\<close> stands before \<open>v\<close> in it then the graph
  distance from \<open>s\<close> to \<open>u\<close> is at most the graph distance from \<open>s\<close> to \<open>v\<close>.
\<close>

theorem traverse_discovery_order:
  "distinct (traverse g s)
   \<and> (\<forall>v \<in> set (traverse g s). reachable g s v)
   \<and> (\<forall>i j. i < j \<and> j < length (traverse g s) \<longrightarrow>
         graph_dist g s (traverse g s ! i) \<le> graph_dist g s (traverse g s ! j))"
proof (intro conjI)
  show "distinct (traverse g s)" by (rule traverse_distinct)
  show "\<forall>v \<in> set (traverse g s). reachable g s v"
    by (cases "hasVertex g s") (simp_all add: traverse_set, simp add: traverse_def)
  show "\<forall>i j. i < j \<and> j < length (traverse g s) \<longrightarrow>
         graph_dist g s (traverse g s ! i) \<le> graph_dist g s (traverse g s ! j)"
    using traverse_sorted[of g s] by (auto simp: sorted_iff_nth_mono)
qed

theorem traverse_discovery_order_witness:
  "traverse scenarioA_graph 1 = [1, 2, 4, 3]
   \<and> graph_dist scenarioA_graph 1 (traverse scenarioA_graph 1 ! 1)
       \<le> graph_dist scenarioA_graph 1 (traverse scenarioA_graph 1 ! 3)
   \<and> reachable scenarioA_graph 1 3"
proof -
  have t: "traverse scenarioA_graph 1 = [1, 2, 4, 3]"
    unfolding scenarioA_graph_def by code_simp
  have "(1::nat) < 3 \<and> 3 < length (traverse scenarioA_graph 1)" by (simp add: t)
  moreover have "3 \<in> set (traverse scenarioA_graph 1)" by (simp add: t)
  ultimately show ?thesis using traverse_discovery_order[of scenarioA_graph 1] t by blast
qed

section \<open>Properties of undirected graphs\<close>

definition directed_fan :: Graph where
  "directed_fan = build True [AddVertex 3, AddEdge 1 3, AddEdge 2 3]"

definition two_islands :: Graph where
  "two_islands = build False [AddEdge 1 2, AddEdge 3 4, AddVertex 5, AddEdge 2 6]"

text \<open>
  C3, as stated, for every graph: in the directed graph with the vertices 3, 1, 2 and the
  edges \<open>1 \<rightarrow> 3\<close> and \<open>2 \<rightarrow> 3\<close> the components returned are \<open>[3]\<close>, \<open>[1, 3]\<close> and
  \<open>[2, 3]\<close>, which share the vertex 3.
\<close>

theorem findConnectedComponents_directed_overlap:
  "findConnectedComponents directed_fan = [[3], [1, 3], [2, 3]]
   \<and> set (findConnectedComponents directed_fan ! 1)
       \<inter> set (findConnectedComponents directed_fan ! 2) \<noteq> {}"
  unfolding directed_fan_def by code_simp

text \<open>
  C3, amended: for every graph whose stored adjacency is symmetric (\<open>v\<close> among the
  neighbours of \<open>u\<close> whenever \<open>u\<close> is among the neighbours of \<open>v\<close>), as it is in every
  graph built as undirected with \<open>addVertex\<close> and \<open>addEdge\<close>, the components returned by
  \<open>findConnectedComponents\<close> are pairwise disjoint and their union is the set of
  \<open>getAllVertices\<close>.
\<close>

theorem findConnectedComponents_partition_symmetric:
  assumes "symmetric_adj g"
  shows "pairwise_disjoint (findConnectedComponents g)
       \<and> \<Union>(set ` set (findConnectedComponents g)) = set (getAllVertices g)"
  using findConnectedComponents_partition[OF assms] by (rule conjI)

theorem findConnectedComponents_partition_symmetric_witness:
  "symmetric_adj two_islands
   \<and> findConnectedComponents two_islands = [[1, 2, 6], [3, 4], [5]]
   \<and> pairwise_disjoint (findConnectedComponents two_islands)
   \<and> \<Union>(set ` set (findConnectedComponents two_islands)) = set (getAllVertices two_islands)"
proof -
  have h: "symmetric_adj two_islands" unfolding two_islands_def by (rule build_symmetric)
  have c: "findConnectedComponents two_islands = [[1, 2, 6], [3, 4], [5]]"
    unfolding two_islands_def by code_simp
  from h c findConnectedComponents_partition_symmetric[OF h] show ?thesis by blast
qed

text \<open>
  C10: in a graph built as undirected (the flag \<open>directed\<close> false at construction) with
  \<open>addVertex\<close> and \<open>addEdge\<close> only, \<open>shortestDistance\<close> is symmetric.
\<close>

theorem shortestDistance_undirected_symmetric:
  "shortestDistance (build False ops) u v = shortestDistance (build False ops) v u"
  by (rule shortestDistance_symmetric[OF build_symmetric])

theorem shortestDistance_undirected_symmetric_witness:
  "shortestDistance two_islands 1 6 = 2 \<and> shortestDistance two_islands 6 1 = 2"
proof -
  have "shortestDistance two_islands 1 6 = 2" unfolding two_islands_def by code_simp
  with shortestDistance_undirected_symmetric[of "[AddEdge 1 2, AddEdge 3 4, AddVertex 5, AddEdge 2 6]" 1 6]
  show ?thesis by (simp add: two_islands_def)
qed

section \<open>Properties of the grid search\<close>

text \<open>
  What holds of a returned path on any grid of integers: its ends, its bounds and its
  steps; the start cell is only known not to hold 1 (the test on the start and the target
  is \<open>== 1\<close>), every later cell holds 0 (the test on a step is \<open>== 0\<close>).
\<close>

lemma gridBFS_path_shape:
  assumes "gridBFS grid startRow startCol targetRow targetCol = Some (Inr path)"
    and "path \<noteq> []"
  shows "hd path = (startRow, startCol) \<and> last path = (targetRow, targetCol)
       \<and> (\<forall>cell \<in> set path. in_bounds grid cell)
       \<and> (\<exists>v. at2 grid startRow startCol = Inr v \<and> v \<noteq> 1)
       \<and> (\<forall>cell \<in> set (tl path). at2 grid (fst cell) (snd cell) = Inr 0)
       \<and> (\<forall>i. Suc i < length path \<longrightarrow> step_between (path ! i) (path ! Suc i))"
proof -
  note t = gridBFS_trail[OF assms]
  from t(3) show ?thesis
  proof
    assume "path = [(startRow, startCol)] \<and> (startRow, startCol) = (targetRow, targetCol)"
    with t(1,2) show ?thesis by simp
  next
    assume "\<exists>parent. trail grid (startRow, startCol) parent (targetRow, targetCol) path"
    then obtain parent where
      "trail grid (startRow, startCol) parent (targetRow, targetCol) path" by blast
    from trail_hd[OF this] trail_last[OF this] trail_in_bounds[OF this]
      trail_passable[OF this] trail_steps[OF this] t(2)
    show ?thesis by blast
  qed
qed

text \<open>
  The grids of the interface: \<open>bfs.h\<close> documents the parameter as a "2D grid where
  0 = walkable, 1 = obstacle", and the number of columns is that of the first row.
\<close>

definition binary_grid :: "int list list \<Rightarrow> bool" where
  "binary_grid grid = (\<forall>row \<in> set grid. \<forall>v \<in> set row. v = 0 \<or> v = 1)"

lemma binary_grid_at2:
  "binary_grid grid \<Longrightarrow> at2 grid r c = Inr v \<Longrightarrow> v = 0 \<or> v = 1"
proof -
  assume b: "binary_grid grid" and a: "at2 grid r c = Inr v"
  from a have rng: "nat r < length grid" "nat c < length (grid ! nat r)"
    and v: "v = grid ! nat r ! nat c"
    by (auto simp: at2_def split: if_splits)
  from rng have "grid ! nat r \<in> set grid" "v \<in> set (grid ! nat r)"
    by (simp_all add: v)
  with b show ?thesis unfolding binary_grid_def by blast
qed

text \<open>
  C9: on a grid of 0 and 1 in which no row is shorter than the first (every rectangular
  grid), \<open>gridBFS\<close> returns a path, and when the path is not empty it is a valid grid
  walk: its first cell is \<open>(startRow, startCol)\<close>, its last cell is
  \<open>(targetRow, targetCol)\<close>, every cell on it is within the grid bounds and passable (grid
  value 0), and each cell is one step up, down, left or right of the cell before it.
\<close>

theorem gridBFS_path_valid_walk:
  assumes "binary_grid grid" and "rows_cover grid"
  shows "\<exists>path. gridBFS grid startRow startCol targetRow targetCol = Some (Inr path)
       \<and> (path \<noteq> [] \<longrightarrow>
            hd path = (startRow, startCol) \<and> last path = (targetRow, targetCol)
          \<and> (\<forall>cell \<in> set path.
                in_bounds grid cell \<and> at2 grid (fst cell) (snd cell) = Inr 0)
          \<and> (\<forall>i. Suc i < length path \<longrightarrow> step_between (path ! i) (path ! Suc i)))"
proof -
  from gridBFS_returns[OF assms(2)] obtain path where
    run: "gridBFS grid startRow startCol targetRow targetCol = Some (Inr path)" by blast
  have "hd path = (startRow, startCol) \<and> last path = (targetRow, targetCol)
      \<and> (\<forall>cell \<in> set path. in_bounds grid cell \<and> at2 grid (fst cell) (snd cell) = Inr 0)
      \<and> (\<forall>i. Suc i < length path \<longrightarrow> step_between (path ! i) (path ! Suc i))"
    if ne: "path \<noteq> []"
  proof -
    note sh = gridBFS_path_shape[OF run ne]
    from sh obtain v where v: "at2 grid startRow startCol = Inr v" "v \<noteq> 1" by blast
    from binary_grid_at2[OF assms(1) v(1)] v(2) have "v = 0" by simp
    with v(1) sh have first: "at2 grid (fst (hd path)) (snd (hd path)) = Inr 0" by simp
    have "set path = insert (hd path) (set (tl path))"
      using ne by (cases path) simp_all
    with first sh have "\<forall>cell \<in> set path. at2 grid (fst cell) (snd cell) = Inr 0"
      by auto
    with sh show ?thesis by blast
  qed
  with run show ?thesis by blast
qed

theorem gridBFS_path_valid_walk_witness:
  "binary_grid scenarioB_grid \<and> rows_cover scenarioB_grid
   \<and> gridBFS scenarioB_grid 0 0 2 0
       = Some (Inr [(0, 0), (0, 1), (0, 2), (1, 2), (2, 2), (2, 1), (2, 0)])
   \<and> in_bounds scenarioB_grid (1, 2)
   \<and> at2 scenarioB_grid 1 2 = Inr 0
   \<and> step_between (0, 2) (1, 2)"
proof -
  let ?p = "[(0, 0), (0, 1), (0, 2), (1, 2), (2, 2), (2, 1), (2 :: int, 0 :: int)]"
  have b: "binary_grid scenarioB_grid" by (simp add: binary_grid_def scenarioB_grid_def)
  have c: "rows_cover scenarioB_grid" by (simp add: rows_cover_def scenarioB_grid_def)
  have run: "gridBFS scenarioB_grid 0 0 2 0 = Some (Inr ?p)"
    unfolding scenarioB_grid_def by code_simp
  from gridBFS_path_valid_walk[OF b c, of 0 0 2 0] run
  have v: "(\<forall>cell \<in> set ?p. in_bounds scenarioB_grid cell
              \<and> at2 scenarioB_grid (fst cell) (snd cell) = Inr 0)
         \<and> (\<forall>i. Suc i < length ?p \<longrightarrow> step_between (?p ! i) (?p ! Suc i))"
    by auto
  from v have "in_bounds scenarioB_grid (1, 2)"
    and "at2 scenarioB_grid (fst (1 :: int, 2 :: int)) (snd (1 :: int, 2 :: int)) = Inr 0"
    by simp_all
  moreover from v have "Suc 2 < length ?p \<longrightarrow> step_between (?p ! 2) (?p ! Suc 2)" by blast
  ultimately show ?thesis using b c run by simp
qed

section \<open>Every query returns\<close>




end
